theory Spec2Isabelle
  imports Complex_Main "HOL-Library.Log_Nat" "HOL-Library.Char_ord" "HOL-Library.List_Lexorder"
    "HOL-Library.AList"
begin

section \<open>Python values used by the duration codec\<close>

text \<open>
  Python's \<open>str\<close> is a sequence of code points.  A \<^typ>\<open>char\<close> stands for the code
  point of the same number, so the strings of this development are the Python strings
  whose code points are below 256 (Latin-1); the micro sign is \<open>CHR 0xB5\<close>.
\<close>

subsection \<open>Exceptions\<close>

datatype error = KeyError | TypeError | ValueError | AttributeError | OverflowError

subsection \<open>Floats\<close>

text \<open>
  A Python \<open>float\<close> is an IEEE 754 binary64 number.  \<open>Finite m e\<close> is the finite number
  \<open>m * 2^e\<close>, kept in lowest terms: \<open>m\<close> is odd, or \<open>m = 0\<close> and \<open>e = 0\<close> (\<open>-0.0\<close> is not
  told apart from \<open>0.0\<close>; the code modelled here never looks at the sign of zero).  Every
  operation computes its exact result as a ratio of integers and rounds it to the nearest
  representable number, ties to even (\<open>round_ratio\<close>): 53 significant bits, least
  exponent \<open>-1074\<close>, overflow to infinity from \<open>2^1024\<close> on.
\<close>

datatype pyfloat = Finite int int | PInf | NInf | NaN

function normalize_float :: "int \<Rightarrow> int \<Rightarrow> int \<times> int" where
  "normalize_float m e =
     (if m = 0 then (0, 0) else if even m then normalize_float (m div 2) (e + 1) else (m, e))"
  by pat_completeness auto
termination
  by (relation "measure (\<lambda>(m, e). nat \<bar>m\<bar>)") auto

declare normalize_float.simps [simp del]

definition ratio_ge_pow2 :: "int \<Rightarrow> int \<Rightarrow> int \<Rightarrow> bool" where
  \<comment> \<open>\<open>2^k \<le> p / q\<close>, for \<open>0 < q\<close>\<close>
  "ratio_ge_pow2 p q k = (if 0 \<le> k then q * 2 ^ nat k \<le> p else q \<le> p * 2 ^ nat (- k))"

definition ilog2_ratio :: "int \<Rightarrow> int \<Rightarrow> int" where
  \<comment> \<open>for \<open>0 < p\<close> and \<open>0 < q\<close>: the \<open>k\<close> with \<open>2^k \<le> p / q < 2^(k+1)\<close>\<close>
  "ilog2_ratio p q = (let k = bitlen p - bitlen q in if ratio_ge_pow2 p q k then k else k - 1)"

definition round_ratio_pos :: "int \<Rightarrow> int \<Rightarrow> int \<times> int" where
  \<comment> \<open>for \<open>0 < p\<close> and \<open>0 < q\<close>: \<open>(m, e)\<close> with \<open>m * 2^e\<close> the rounding of \<open>p / q\<close>\<close>
  "round_ratio_pos p q =
     (let e = max (ilog2_ratio p q - 52) (- 1074);
          n = (if e < 0 then p * 2 ^ nat (- e) else p);
          d = (if 0 \<le> e then q * 2 ^ nat e else q);
          f = n div d;
          r = n mod d;
          m = (if 2 * r < d then f else if d < 2 * r then f + 1 else if even f then f else f + 1)
      in (m, e))"

definition round_ratio :: "int \<Rightarrow> int \<Rightarrow> pyfloat" where
  \<comment> \<open>the float nearest to \<open>p / q\<close>, for \<open>0 < q\<close>\<close>
  "round_ratio p q =
     (if p = 0 then Finite 0 0
      else case round_ratio_pos \<bar>p\<bar> q of (m, e) \<Rightarrow>
        if 1024 < bitlen m + e then (if 0 < p then PInf else NInf)
        else case normalize_float m e of (m', e') \<Rightarrow> Finite (if 0 < p then m' else - m') e')"

definition round_scaled :: "int \<Rightarrow> int \<Rightarrow> pyfloat" where
  \<comment> \<open>the float nearest to \<open>m * 2^e\<close>\<close>
  "round_scaled m e = (if 0 \<le> e then round_ratio (m * 2 ^ nat e) 1 else round_ratio m (2 ^ nat (- e)))"

fun float_mul :: "pyfloat \<Rightarrow> pyfloat \<Rightarrow> pyfloat" where
  "float_mul (Finite m1 e1) (Finite m2 e2) = round_scaled (m1 * m2) (e1 + e2)"
| "float_mul NaN _ = NaN"
| "float_mul _ NaN = NaN"
| "float_mul (Finite m e) PInf = (if m = 0 then NaN else if 0 < m then PInf else NInf)"
| "float_mul (Finite m e) NInf = (if m = 0 then NaN else if 0 < m then NInf else PInf)"
| "float_mul PInf (Finite m e) = (if m = 0 then NaN else if 0 < m then PInf else NInf)"
| "float_mul NInf (Finite m e) = (if m = 0 then NaN else if 0 < m then NInf else PInf)"
| "float_mul PInf PInf = PInf"
| "float_mul NInf NInf = PInf"
| "float_mul PInf NInf = NInf"
| "float_mul NInf PInf = NInf"

fun float_add :: "pyfloat \<Rightarrow> pyfloat \<Rightarrow> pyfloat" where
  "float_add (Finite m1 e1) (Finite m2 e2) =
     (let e = min e1 e2 in round_scaled (m1 * 2 ^ nat (e1 - e) + m2 * 2 ^ nat (e2 - e)) e)"
| "float_add NaN _ = NaN"
| "float_add _ NaN = NaN"
| "float_add PInf NInf = NaN"
| "float_add NInf PInf = NaN"
| "float_add PInf _ = PInf"
| "float_add _ PInf = PInf"
| "float_add NInf _ = NInf"
| "float_add _ NInf = NInf"

text \<open>\<open>float(i)\<close> for an \<open>int\<close>, as the mixed arithmetic \<open>float * int\<close> converts its
  \<open>int\<close> operand: correctly rounded, \<open>OverflowError\<close> when the result is not finite.\<close>

definition float_of_int :: "int \<Rightarrow> error + pyfloat" where
  "float_of_int i = (case round_ratio i 1 of Finite m e \<Rightarrow> Inr (Finite m e) | _ \<Rightarrow> Inl OverflowError)"

text \<open>\<open>int(f)\<close> for a \<open>float\<close>: truncation towards zero.\<close>

definition int_of_float :: "pyfloat \<Rightarrow> error + int" where
  "int_of_float f = (case f of
       Finite m e \<Rightarrow>
         Inr (if 0 \<le> e then m * 2 ^ nat e
              else if 0 \<le> m then m div 2 ^ nat (- e) else - ((- m) div 2 ^ nat (- e)))
     | NaN \<Rightarrow> Inl ValueError
     | _ \<Rightarrow> Inl OverflowError)"

subsection \<open>Numbers: \<open>int\<close> and \<open>float\<close> with Python's promotion\<close>

datatype pynum = PInt int | PFloat pyfloat

fun py_mul :: "pynum \<Rightarrow> pynum \<Rightarrow> error + pynum" where
  "py_mul (PInt a) (PInt b) = Inr (PInt (a * b))"
| "py_mul (PFloat x) (PFloat y) = Inr (PFloat (float_mul x y))"
| "py_mul (PFloat x) (PInt b) =
     (case float_of_int b of Inl e \<Rightarrow> Inl e | Inr y \<Rightarrow> Inr (PFloat (float_mul x y)))"
| "py_mul (PInt a) (PFloat y) =
     (case float_of_int a of Inl e \<Rightarrow> Inl e | Inr x \<Rightarrow> Inr (PFloat (float_mul x y)))"

fun py_add :: "pynum \<Rightarrow> pynum \<Rightarrow> error + pynum" where
  "py_add (PInt a) (PInt b) = Inr (PInt (a + b))"
| "py_add (PFloat x) (PFloat y) = Inr (PFloat (float_add x y))"
| "py_add (PFloat x) (PInt b) =
     (case float_of_int b of Inl e \<Rightarrow> Inl e | Inr y \<Rightarrow> Inr (PFloat (float_add x y)))"
| "py_add (PInt a) (PFloat y) =
     (case float_of_int a of Inl e \<Rightarrow> Inl e | Inr x \<Rightarrow> Inr (PFloat (float_add x y)))"

text \<open>\<open>x == n\<close> between a number and an \<open>int\<close> compares the exact values.\<close>

fun py_eq_int :: "pynum \<Rightarrow> int \<Rightarrow> bool" where
  "py_eq_int (PInt a) n = (a = n)"
| "py_eq_int (PFloat (Finite m e)) n = (if 0 \<le> e then m * 2 ^ nat e = n else m = n * 2 ^ nat (- e))"
| "py_eq_int (PFloat _) n = False"

subsection \<open>Decimal rendering of integers: \<open>'{}'.format(i)\<close>\<close>

definition digit_char :: "nat \<Rightarrow> char" where
  "digit_char d = char_of (48 + d)"

fun str_nat :: "nat \<Rightarrow> string" where
  "str_nat n = (if n < 10 then [digit_char n] else str_nat (n div 10) @ [digit_char (n mod 10)])"

declare str_nat.simps [simp del]

definition str_int :: "int \<Rightarrow> string" where
  "str_int i = (if i < 0 then CHR ''-'' # str_nat (nat (- i)) else str_nat (nat i))"

subsection \<open>Character classes and string methods\<close>

definition is_digit :: "char \<Rightarrow> bool" where
  \<comment> \<open>\<open>\d\<close>, and what \<open>int()\<close> reads: below 256 the decimal digits are \<open>0\<close> to \<open>9\<close>\<close>
  "is_digit c = (48 \<le> (of_char c :: nat) \<and> (of_char c :: nat) \<le> 57)"

definition is_space :: "char \<Rightarrow> bool" where
  \<comment> \<open>\<open>\s\<close> and the characters \<open>str.strip()\<close> removes\<close>
  "is_space c = ((of_char c :: nat) \<in> set [9, 10, 11, 12, 13, 28, 29, 30, 31, 32, 133, 160])"

definition isdigit_char :: "char \<Rightarrow> bool" where
  \<comment> \<open>\<open>str.isdigit\<close> also accepts the superscripts two, three and one\<close>
  "isdigit_char c = (is_digit c \<or> (of_char c :: nat) \<in> set [178, 179, 185])"

definition isdigit :: "string \<Rightarrow> bool" where
  "isdigit s = (s \<noteq> [] \<and> list_all isdigit_char s)"

definition lower_char :: "char \<Rightarrow> char" where
  "lower_char c =
     (let n = (of_char c :: nat) in
      if (65 \<le> n \<and> n \<le> 90) \<or> (192 \<le> n \<and> n \<le> 222 \<and> n \<noteq> 215) then char_of (n + 32) else c)"

definition lower :: "string \<Rightarrow> string" where
  "lower s = map lower_char s"

definition strip :: "string \<Rightarrow> string" where
  "strip s = rev (dropWhile is_space (rev (dropWhile is_space s)))"

function replace :: "string \<Rightarrow> string \<Rightarrow> string \<Rightarrow> string" where
  "replace old new s =
     (if old = [] then new @ concat (map (\<lambda>c. c # new) s)
      else if s = [] then []
      else if take (length old) s = old then new @ replace old new (drop (length old) s)
      else hd s # replace old new (tl s))"
  by pat_completeness auto
termination
  by (relation "measure (\<lambda>(old, new, s). length s)") auto

declare replace.simps [simp del]

definition digit_value :: "char \<Rightarrow> int" where
  "digit_value c = int (of_char c) - 48"

definition digits_value :: "string \<Rightarrow> int" where
  "digits_value s = foldl (\<lambda>a c. 10 * a + digit_value c) 0 s"

text \<open>
  \<open>int(s)\<close> and \<open>float(s)\<close> on the strings the pattern \<open>FLOAT_NUMBER\<close> can capture:
  decimal digits with at most one point.  Any other string is answered with
  \<open>ValueError\<close>; \<open>timeparse\<close> passes no such string.
\<close>

definition int_of_str :: "string \<Rightarrow> error + int" where
  "int_of_str s = (if s \<noteq> [] \<and> list_all is_digit s then Inr (digits_value s) else Inl ValueError)"

definition float_of_str :: "string \<Rightarrow> error + pyfloat" where
  "float_of_str s =
     (let ip = takeWhile is_digit s; r = dropWhile is_digit s in
      if r = [] then (if ip = [] then Inl ValueError else Inr (round_ratio (digits_value ip) 1))
      else if hd r = CHR ''.'' \<and> list_all is_digit (tl r) \<and> ip @ tl r \<noteq> []
      then Inr (round_ratio (digits_value (ip @ tl r)) (10 ^ length (tl r)))
      else Inl ValueError)"

section \<open>Regular expressions: the fragment of \<open>re\<close> that \<open>timeparse\<close> uses\<close>

text \<open>
  A pattern is matched by backtracking.  \<open>rx_match r s\<close> lists every way \<open>r\<close> matches a
  prefix of \<open>s\<close>, as the pair of the named groups captured and the rest of the input, in
  the order in which the backtracking matcher tries them: a greedy quantifier offers its
  longest match first, \<open>?\<close> offers the match before the skip, \<open>|\<close> its left branch
  before its right one.  \<open>re.match\<close> returns the first one.  The closures of the source
  are all over one character class, which \<open>Star\<close> and \<open>Plus\<close> take as a predicate;
  a literal under \<open>re.I\<close> is the class of the characters with its lower case.
\<close>

datatype rx =
    Chr "char \<Rightarrow> bool"
  | Seq rx rx
  | Alt rx rx
  | Opt rx
  | Star "char \<Rightarrow> bool"
  | Plus "char \<Rightarrow> bool"
  | Group string rx
  | Dollar

type_synonym groups = "(string \<times> string) list"

fun star_rests :: "(char \<Rightarrow> bool) \<Rightarrow> string \<Rightarrow> string list" where
  "star_rests P [] = [[]]"
| "star_rests P (c # cs) = (if P c then star_rests P cs @ [c # cs] else [c # cs])"

fun rx_match :: "rx \<Rightarrow> string \<Rightarrow> (groups \<times> string) list" where
  "rx_match (Chr P) s = (case s of [] \<Rightarrow> [] | c # cs \<Rightarrow> if P c then [([], cs)] else [])"
| "rx_match (Seq r1 r2) s =
     concat (map (\<lambda>(g1, s1). map (\<lambda>(g2, s2). (g1 @ g2, s2)) (rx_match r2 s1)) (rx_match r1 s))"
| "rx_match (Alt r1 r2) s = rx_match r1 s @ rx_match r2 s"
| "rx_match (Opt r) s = rx_match r s @ [([], s)]"
| "rx_match (Star P) s = map (Pair []) (star_rests P s)"
| "rx_match (Plus P) s =
     (case s of [] \<Rightarrow> [] | c # cs \<Rightarrow> if P c then map (Pair []) (star_rests P cs) else [])"
| "rx_match (Group name r) s =
     map (\<lambda>(g, s'). ((name, take (length s - length s') s) # g, s')) (rx_match r s)"
| "rx_match Dollar s = (if s = [] \<or> s = [CHR 0x0A] then [([], s)] else [])"

definition re_match :: "rx \<Rightarrow> string \<Rightarrow> (groups \<times> string) option" where
  "re_match r s = (case rx_match r s of [] \<Rightarrow> None | m # _ \<Rightarrow> Some m)"

definition literal :: "char \<Rightarrow> rx" where
  "literal l = Chr (\<lambda>c. lower_char c = lower_char l)"

section \<open>DurationCodec.parse: \<open>timeparse\<close> (compose/timeparse.py)\<close>

definition FLOAT_NUMBER :: rx where
  \<comment> \<open>\<^verbatim>\<open>(?:\d+\.?\d*|\.\d+)\<close>\<close>
  "FLOAT_NUMBER =
     Alt (Seq (Plus is_digit) (Seq (Opt (Chr (\<lambda>c. c = CHR ''.''))) (Star is_digit)))
         (Seq (Chr (\<lambda>c. c = CHR ''.'')) (Plus is_digit))"

definition HOURS :: rx where
  "HOURS = Seq (Group ''hours'' FLOAT_NUMBER) (literal CHR ''h'')"

definition MINS :: rx where
  "MINS = Seq (Group ''mins'' FLOAT_NUMBER) (literal CHR ''m'')"

definition SECS :: rx where
  "SECS = Seq (Group ''secs'' FLOAT_NUMBER) (literal CHR ''s'')"

definition MILLI :: rx where
  "MILLI = Seq (Group ''milli'' FLOAT_NUMBER) (Seq (literal CHR ''m'') (literal CHR ''s''))"

definition MICRO :: rx where
  "MICRO = Seq (Group ''micro'' FLOAT_NUMBER)
     (Alt (Seq (literal CHR ''u'') (literal CHR ''s'')) (Seq (literal (CHR 0xB5)) (literal CHR ''s'')))"

definition NANO :: rx where
  "NANO = Seq (Group ''nano'' FLOAT_NUMBER) (Seq (literal CHR ''n'') (literal CHR ''s''))"

definition opt :: "rx \<Rightarrow> rx" where
  "opt x = Opt x"

definition TIMEFORMAT :: rx where
  "TIMEFORMAT =
     Seq (opt HOURS) (Seq (opt MINS) (Seq (opt SECS) (Seq (opt MILLI) (Seq (opt MICRO) (opt NANO)))))"

definition MULTIPLIERS :: "(string \<times> pyfloat) list" where
  \<comment> \<open>\<open>60.0 * 60\<close>, \<open>60.0\<close>, \<open>1.0\<close>, \<open>1.0 / 1000\<close>, \<open>1.0 / 1000**2\<close>, \<open>1.0 / 1000**3\<close>: the
      operands are exact, so each entry is the rounding of the exact product or quotient\<close>
  "MULTIPLIERS =
     [(''hours'', round_ratio (60 * 60) 1),
      (''mins'', round_ratio 60 1),
      (''secs'', round_ratio 1 1),
      (''milli'', round_ratio 1 1000),
      (''micro'', round_ratio 1 (1000 ^ 2)),
      (''nano'', round_ratio 1 (1000 ^ 3))]"

definition cast :: "string \<Rightarrow> error + pynum" where
  \<comment> \<open>\<^verbatim>\<open>int(value) if value.isdigit() else float(value)\<close>\<close>
  "cast v =
     (if isdigit v then (case int_of_str v of Inl e \<Rightarrow> Inl e | Inr i \<Rightarrow> Inr (PInt i))
      else (case float_of_str v of Inl e \<Rightarrow> Inl e | Inr f \<Rightarrow> Inr (PFloat f)))"

definition group_names :: "string list" where
  "group_names = [''hours'', ''mins'', ''secs'', ''milli'', ''micro'', ''nano'']"

definition groupdict :: "groups \<Rightarrow> (string \<times> string option) list" where
  "groupdict g = map (\<lambda>k. (k, map_of g k)) group_names"

definition seconds_term :: "string \<Rightarrow> string \<Rightarrow> error + pynum" where
  \<comment> \<open>\<^verbatim>\<open>MULTIPLIERS[k] * cast(v)\<close>\<close>
  "seconds_term k v =
     (case map_of MULTIPLIERS k of
        None \<Rightarrow> Inl KeyError
      | Some m \<Rightarrow> (case cast v of Inl e \<Rightarrow> Inl e | Inr c \<Rightarrow> py_mul (PFloat m) c))"

fun sum_terms :: "pynum \<Rightarrow> (string \<times> string option) list \<Rightarrow> error + pynum" where
  \<comment> \<open>\<open>sum(... for (k, v) in mdict.items() if v is not None)\<close>, from the accumulator on\<close>
  "sum_terms acc [] = Inr acc"
| "sum_terms acc ((k, None) # kvs) = sum_terms acc kvs"
| "sum_terms acc ((k, Some v) # kvs) =
     (case seconds_term k v of
        Inl e \<Rightarrow> Inl e
      | Inr x \<Rightarrow> (case py_add acc x of Inl e \<Rightarrow> Inl e | Inr acc' \<Rightarrow> sum_terms acc' kvs))"

definition timeparse_rx :: rx where
  \<comment> \<open>\<^verbatim>\<open>r'\s*' + TIMEFORMAT + r'\s*$'\<close>\<close>
  "timeparse_rx = Seq (Star is_space) (Seq TIMEFORMAT (Seq (Star is_space) Dollar))"

definition timeparse :: "string \<Rightarrow> error + pynum option" where
  "timeparse sval =
     (case re_match timeparse_rx sval of
        None \<Rightarrow> Inr None
      | Some (g, rest) \<Rightarrow>
          if strip (take (length sval - length rest) sval) = [] then Inr None
          else (case sum_terms (PInt 0) (groupdict g) of Inl e \<Rightarrow> Inl e | Inr x \<Rightarrow> Inr (Some x)))"

section \<open>DurationCodec.format: \<open>serialize_ns_time_value\<close> (compose/config/serialize.py)\<close>

text \<open>
  \<^verbatim>\<open>
  value = int(value)
  result = (value, 'ns')
  table = [(1000, 'us'), (1000, 'ms'), (1000, 's'), (60, 'm'), (60, 'h')]
  for factor, unit in table:
      tmp, reminder = divmod(value, factor)
      if reminder == 0:
          value = tmp
          result = (value, unit)
      else:
          break
  return '{}{}'.format(*result)
  \<close>
  The argument is a Python \<open>int\<close> (unbounded), on which \<open>int(value)\<close> is the identity.
  \<open>divmod\<close> is floor division, as \<open>div\<close> and \<open>mod\<close> on \<^typ>\<open>int\<close> are.
\<close>

definition table :: "(int \<times> string) list" where
  "table = [(1000, ''us''), (1000, ''ms''), (1000, ''s''), (60, ''m''), (60, ''h'')]"

fun promote :: "(int \<times> string) list \<Rightarrow> int \<Rightarrow> int \<times> string \<Rightarrow> int \<times> string" where
  "promote [] val result = result"
| "promote ((factor, unit) # rest) val result =
     (let tmp = val div factor; reminder = val mod factor in
      if reminder = 0 then promote rest tmp (tmp, unit) else result)"

definition ns_time_pair :: "int \<Rightarrow> int \<times> string" where
  "ns_time_pair val = promote table val (val, ''ns'')"

definition serialize_ns_time_value :: "int \<Rightarrow> string" where
  "serialize_ns_time_value val = (case ns_time_pair val of (v, unit) \<Rightarrow> str_int v @ unit)"

subsection \<open>The promotion chain in the words of the specification\<close>

definition chain_factors :: "int list" where
  "chain_factors = [1000, 1000, 1000, 60, 60]"

definition chain_units :: "string list" where
  "chain_units = [''ns'', ''us'', ''ms'', ''s'', ''m'', ''h'']"

definition value_at :: "nat \<Rightarrow> int \<Rightarrow> int" where
  \<comment> \<open>the value after \<open>k\<close> promotions\<close>
  "value_at k n = n div prod_list (take k chain_factors)"

definition stops_at :: "nat \<Rightarrow> int \<Rightarrow> bool" where
  \<comment> \<open>the first \<open>k\<close> divisions leave remainder zero, the next one (if any) does not\<close>
  "stops_at k n \<longleftrightarrow> k \<le> 5 \<and> (\<forall>j<k. value_at j n mod (chain_factors ! j) = 0)
     \<and> (k < 5 \<longrightarrow> value_at k n mod (chain_factors ! k) \<noteq> 0)"


section \<open>ScalarPresenter: \<open>serialize_string\<close> (compose/config/serialize.py)\<close>

text \<open>
  The representer answers with a node for the YAML emitter.  PyYAML's
  \<open>represent_scalar(tag, value, style)\<close> builds the scalar node with these three fields, and
  its \<open>represent_str(data)\<close> is \<open>represent_scalar('tag:yaml.org,2002:str', data)\<close>, with no
  style asked for (the emitter then writes the plain form where the text allows it).
  Style \<open>'"'\<close> asks for a double-quoted scalar.  The representer is registered for
  \<open>str\<close>, so \<open>data\<close> is a \<open>str\<close> and the \<open>bytes\<close> branch is not taken.
\<close>

datatype yaml_node = ScalarNode (node_tag: string) (node_value: string) (node_style: "char option")

definition represent_scalar :: "string \<Rightarrow> string \<Rightarrow> char option \<Rightarrow> yaml_node" where
  "represent_scalar tag val style = ScalarNode tag val style"

definition represent_str :: "string \<Rightarrow> yaml_node" where
  "represent_str data = represent_scalar ''tag:yaml.org,2002:str'' data None"

definition serialize_string :: "string \<Rightarrow> yaml_node" where
  "serialize_string data =
     (if lower data \<in> set [''y'', ''n'', ''yes'', ''no'', ''on'', ''off'', ''true'', ''false'']
      then represent_scalar ''tag:yaml.org,2002:str'' data (Some (CHR 0x22))
      else represent_str data)"

definition serialize_string_escape_dollar :: "string \<Rightarrow> yaml_node" where
  "serialize_string_escape_dollar data = serialize_string (replace ''$'' ''$$'' data)"

section \<open>Schema versions\<close>

text \<open>
  Modelled from the spec: \<open>compose/const.py\<close>, which declares the version type and the
  constants \<open>COMPOSEFILE_V1\<close>, \<open>COMPOSEFILE_V2_1\<close>, ..., is not among the sources.  The
  specification calls a schema version an ordered, comparable value with major.minor
  semantics and a total order; the constants are read off their names.  \<open>str\<close> of a
  version is its dotted text.
\<close>

datatype version = ComposeVersion nat nat

fun version_less :: "version \<Rightarrow> version \<Rightarrow> bool" where
  "version_less (ComposeVersion a b) (ComposeVersion c d) = (a < c \<or> (a = c \<and> b < d))"

definition version_ge :: "version \<Rightarrow> version \<Rightarrow> bool" where
  "version_ge v w = (\<not> version_less v w)"

fun version_str :: "version \<Rightarrow> string" where
  "version_str (ComposeVersion a b) = str_nat a @ ''.'' @ str_nat b"

definition V1 :: version where "V1 = ComposeVersion 1 0"
definition V2_1 :: version where "V2_1 = ComposeVersion 2 1"
definition V2_3 :: version where "V2_3 = ComposeVersion 2 3"
definition V3_0 :: version where "V3_0 = ComposeVersion 3 0"
definition V3_2 :: version where "V3_2 = ComposeVersion 3 2"
definition V3_4 :: version where "V3_4 = ComposeVersion 3 4"
definition V3_5 :: version where "V3_5 = ComposeVersion 3 5"

section \<open>Python objects: values, mappings and the store\<close>

text \<open>
  A mapping is a mutable object: two names can refer to the same one, and
  \<open>dict.copy()\<close> copies one level only.  So mappings live in a store, a list of
  objects addressed by position, and a value refers to one by its address (\<open>VRef\<close>).
  A mapping is the list of its items in insertion order, with \<open>str\<close> keys.
  Sequences are only rebuilt, never updated in place, by the code modelled here, and
  are values.  \<open>VObj c fs\<close> is an instance of the class \<open>c\<close> of \<open>compose.config.types\<close>
  (a port, a mount) with its field values.
\<close>

datatype pyval =
    VNone
  | VBool bool
  | VInt int
  | VFloat pyfloat
  | VStr string
  | VList "pyval list"
  | VRef nat
  | VObj string "pyval list"

type_synonym pydict = "(string \<times> pyval) list"

type_synonym heap = "pydict list"

definition then_do :: "error + 'a \<Rightarrow> ('a \<Rightarrow> error + 'b) \<Rightarrow> error + 'b" where
  "then_do m f = (case m of Inl e \<Rightarrow> Inl e | Inr x \<Rightarrow> f x)"

fun run_steps :: "(heap \<Rightarrow> error + heap) list \<Rightarrow> heap \<Rightarrow> error + heap" where
  "run_steps [] h = Inr h"
| "run_steps (step # steps) h = then_do (step h) (run_steps steps)"

fun map_err :: "('a \<Rightarrow> error + 'b) \<Rightarrow> 'a list \<Rightarrow> error + 'b list" where
  "map_err f [] = Inr []"
| "map_err f (x # xs) = then_do (f x) (\<lambda>y. then_do (map_err f xs) (\<lambda>ys. Inr (y # ys)))"

definition lookup_dict :: "heap \<Rightarrow> pyval \<Rightarrow> (nat \<times> pydict) option" where
  "lookup_dict h v = (case v of VRef a \<Rightarrow> if a < length h then Some (a, h ! a) else None | _ \<Rightarrow> None)"

fun truthy :: "heap \<Rightarrow> pyval \<Rightarrow> bool" where
  "truthy h VNone = False"
| "truthy h (VBool b) = b"
| "truthy h (VInt i) = (i \<noteq> 0)"
| "truthy h (VFloat f) = (f \<noteq> Finite 0 0)"
| "truthy h (VStr s) = (s \<noteq> [])"
| "truthy h (VList vs) = (vs \<noteq> [])"
| "truthy h (VRef a) = (if a < length h then h ! a \<noteq> [] else True)"
| "truthy h (VObj c fs) = True"

text \<open>
  The operators on a value that has to be a mapping.  The data model types the values
  they are applied to as mappings; on any other value the model answers with the error
  given as \<open>err\<close> (Python raises it for \<open>None\<close> and for numbers).
\<close>

definition contains :: "heap \<Rightarrow> pyval \<Rightarrow> string \<Rightarrow> error + bool" where
  \<comment> \<open>\<open>k in v\<close>\<close>
  "contains h v k = (case lookup_dict h v of None \<Rightarrow> Inl TypeError | Some (a, d) \<Rightarrow> Inr (map_of d k \<noteq> None))"

definition getitem :: "heap \<Rightarrow> pyval \<Rightarrow> string \<Rightarrow> error + pyval" where
  \<comment> \<open>\<open>v[k]\<close>\<close>
  "getitem h v k =
     (case lookup_dict h v of
        None \<Rightarrow> Inl TypeError
      | Some (a, d) \<Rightarrow> (case map_of d k of None \<Rightarrow> Inl KeyError | Some x \<Rightarrow> Inr x))"

definition setitem :: "pyval \<Rightarrow> string \<Rightarrow> pyval \<Rightarrow> heap \<Rightarrow> error + heap" where
  \<comment> \<open>\<open>v[k] = x\<close>: a present key keeps its place, a new one goes last\<close>
  "setitem v k x h =
     (case lookup_dict h v of
        None \<Rightarrow> Inl TypeError
      | Some (a, d) \<Rightarrow> Inr (h[a := AList.update k x d]))"

definition delitem :: "pyval \<Rightarrow> string \<Rightarrow> heap \<Rightarrow> error + heap" where
  \<comment> \<open>\<open>del v[k]\<close>\<close>
  "delitem v k h =
     (case lookup_dict h v of
        None \<Rightarrow> Inl TypeError
      | Some (a, d) \<Rightarrow> if map_of d k = None then Inl KeyError else Inr (h[a := AList.delete k d]))"

definition copy :: "pyval \<Rightarrow> heap \<Rightarrow> error + pyval \<times> heap" where
  \<comment> \<open>\<open>v.copy()\<close>: a new mapping with the same items\<close>
  "copy v h =
     (case lookup_dict h v of
        None \<Rightarrow> Inl AttributeError
      | Some (a, d) \<Rightarrow> Inr (VRef (length h), h @ [d]))"

definition new_dict :: "pydict \<Rightarrow> heap \<Rightarrow> pyval \<times> heap" where
  "new_dict d h = (VRef (length h), h @ [d])"

definition getitem_val :: "heap \<Rightarrow> pyval \<Rightarrow> pyval \<Rightarrow> error + pyval" where
  \<comment> \<open>\<open>v[key]\<close> for a key that is a value: the keys of the mappings are \<open>str\<close>\<close>
  "getitem_val h v key = (case key of VStr k \<Rightarrow> getitem h v k | _ \<Rightarrow> Inl KeyError)"

text \<open>
  \<open>int(value)\<close> and \<open>serialize_ns_time_value(value)\<close> for a value of any type.  A
  nanosecond count is a number; a string that is not a run of decimal digits is
  answered with \<open>ValueError\<close>, as \<open>int('1s')\<close> is.
\<close>

definition py_int :: "pyval \<Rightarrow> error + int" where
  "py_int v = (case v of
       VInt i \<Rightarrow> Inr i
     | VBool b \<Rightarrow> Inr (if b then 1 else 0)
     | VFloat f \<Rightarrow> int_of_float f
     | VStr s \<Rightarrow> int_of_str s
     | _ \<Rightarrow> Inl TypeError)"

definition serialize_ns_time_value_of :: "pyval \<Rightarrow> error + pyval" where
  "serialize_ns_time_value_of v = then_do (py_int v) (\<lambda>i. Inr (VStr (serialize_ns_time_value i)))"

section \<open>ServiceDenormalizer: \<open>denormalize_service_dict\<close>\<close>

text \<open>
  \<open>compose/config/types.py\<close> is not among the sources.  What the denormalizer calls of it
  is a parameter: \<open>types.serialize_restart_spec\<close>, the attribute \<open>external_ip\<close> of a port
  and the method \<open>legacy_repr\<close> of a port or a mount.  They read their argument and
  build a new value; they do not update an object of the store.
\<close>

record types_module =
  serialize_restart_spec :: "heap \<Rightarrow> pyval \<Rightarrow> error + pyval"
  external_ip :: "pyval \<Rightarrow> error + pyval"
  legacy_repr :: "heap \<Rightarrow> pyval \<Rightarrow> error + pyval"

definition isinstance_MountSpec :: "pyval \<Rightarrow> bool" where
  "isinstance_MountSpec v = (case v of VObj c fs \<Rightarrow> c = ''MountSpec'' | _ \<Rightarrow> False)"

definition elements :: "pyval \<Rightarrow> error + pyval list" where
  \<comment> \<open>the elements a \<open>for\<close> iterates over: the data model has sequences here\<close>
  "elements v = (case v of VList vs \<Rightarrow> Inr vs | _ \<Rightarrow> Inl TypeError)"

definition image_step :: "pyval \<Rightarrow> pyval \<Rightarrow> heap \<Rightarrow> error + heap" where
  \<comment> \<open>\<^verbatim>\<open>if image_digest: service_dict['image'] = image_digest\<close>\<close>
  "image_step sd image_digest h =
     (if truthy h image_digest then setitem sd ''image'' image_digest h else Inr h)"

definition restart_step :: "types_module \<Rightarrow> pyval \<Rightarrow> heap \<Rightarrow> error + heap" where
  \<comment> \<open>\<^verbatim>\<open>if 'restart' in service_dict: service_dict['restart'] = types.serialize_restart_spec(...)\<close>\<close>
  "restart_step T sd h =
     then_do (contains h sd ''restart'') (\<lambda>present.
       if present then
         then_do (getitem h sd ''restart'') (\<lambda>spec.
         then_do (serialize_restart_spec T h spec) (\<lambda>s. setitem sd ''restart'' s h))
       else Inr h)"

definition network_mode_step :: "pyval \<Rightarrow> version \<Rightarrow> heap \<Rightarrow> error + heap" where
  \<comment> \<open>\<^verbatim>\<open>if version == V1 and 'network_mode' not in service_dict: ...\<close>\<close>
  "network_mode_step sd ver h =
     (if ver = V1 then
        then_do (contains h sd ''network_mode'') (\<lambda>present.
          if \<not> present then setitem sd ''network_mode'' (VStr ''bridge'') h else Inr h)
      else Inr h)"

definition dict_keys :: "heap \<Rightarrow> pyval \<Rightarrow> error + string list" where
  \<comment> \<open>\<open>v.keys()\<close>\<close>
  "dict_keys h v = (case lookup_dict h v of None \<Rightarrow> Inl AttributeError | Some (a, d) \<Rightarrow> Inr (map fst d))"

definition depends_on_step :: "pyval \<Rightarrow> version \<Rightarrow> heap \<Rightarrow> error + heap" where
  \<comment> \<open>\<^verbatim>\<open>if 'depends_on' in service_dict and (version < V2_1 or version >= V3_0): ...\<close>\<close>
  "depends_on_step sd ver h =
     then_do (contains h sd ''depends_on'') (\<lambda>present.
       if present \<and> (version_less ver V2_1 \<or> version_ge ver V3_0) then
         then_do (getitem h sd ''depends_on'') (\<lambda>deps.
         then_do (dict_keys h deps) (\<lambda>ks.
           setitem sd ''depends_on'' (VList (map VStr (sort ks))) h))
       else Inr h)"

definition healthcheck_field_step :: "pyval \<Rightarrow> string \<Rightarrow> heap \<Rightarrow> error + heap" where
  \<comment> \<open>\<^verbatim>\<open>if k in service_dict['healthcheck']:
         service_dict['healthcheck'][k] = serialize_ns_time_value(service_dict['healthcheck'][k])\<close>\<close>
  "healthcheck_field_step sd k h =
     then_do (getitem h sd ''healthcheck'') (\<lambda>hc.
     then_do (contains h hc k) (\<lambda>present.
       if present then
         then_do (getitem h hc k) (\<lambda>v.
         then_do (serialize_ns_time_value_of v) (\<lambda>s. setitem hc k s h))
       else Inr h))"

definition healthcheck_step :: "pyval \<Rightarrow> heap \<Rightarrow> error + heap" where
  "healthcheck_step sd h =
     then_do (contains h sd ''healthcheck'') (\<lambda>present.
       if present then
         run_steps [healthcheck_field_step sd ''interval'',
                    healthcheck_field_step sd ''timeout'',
                    healthcheck_field_step sd ''start_period''] h
       else Inr h)"

definition port_repr :: "types_module \<Rightarrow> version \<Rightarrow> heap \<Rightarrow> pyval \<Rightarrow> error + pyval" where
  \<comment> \<open>\<^verbatim>\<open>p.legacy_repr() if p.external_ip or version < V3_2 else p\<close>\<close>
  "port_repr T ver h p =
     then_do (external_ip T p) (\<lambda>ip.
       if truthy h ip \<or> version_less ver V3_2 then legacy_repr T h p else Inr p)"

definition ports_step :: "types_module \<Rightarrow> pyval \<Rightarrow> version \<Rightarrow> heap \<Rightarrow> error + heap" where
  "ports_step T sd ver h =
     then_do (contains h sd ''ports'') (\<lambda>present.
       if present then
         then_do (getitem h sd ''ports'') (\<lambda>ports.
         then_do (elements ports) (\<lambda>ps.
         then_do (map_err (port_repr T ver h) ps) (\<lambda>rs. setitem sd ''ports'' (VList rs) h)))
       else Inr h)"

definition volume_repr :: "types_module \<Rightarrow> heap \<Rightarrow> pyval \<Rightarrow> error + pyval" where
  \<comment> \<open>\<^verbatim>\<open>v.legacy_repr() if isinstance(v, types.MountSpec) else v\<close>\<close>
  "volume_repr T h v = (if isinstance_MountSpec v then legacy_repr T h v else Inr v)"

definition volumes_step :: "types_module \<Rightarrow> pyval \<Rightarrow> version \<Rightarrow> heap \<Rightarrow> error + heap" where
  "volumes_step T sd ver h =
     then_do (contains h sd ''volumes'') (\<lambda>present.
       if present \<and> (version_less ver V2_3 \<or> (version_less V3_0 ver \<and> version_less ver V3_2)) then
         then_do (getitem h sd ''volumes'') (\<lambda>vols.
         then_do (elements vols) (\<lambda>vs.
         then_do (map_err (volume_repr T h) vs) (\<lambda>rs. setitem sd ''volumes'' (VList rs) h)))
       else Inr h)"

definition denormalize_service_dict ::
    "types_module \<Rightarrow> pyval \<Rightarrow> version \<Rightarrow> pyval \<Rightarrow> heap \<Rightarrow> error + pyval \<times> heap" where
  "denormalize_service_dict T service_dict ver image_digest h =
     then_do (copy service_dict h) (\<lambda>(sd, h0).
     then_do (run_steps
        [image_step sd image_digest,
         restart_step T sd,
         network_mode_step sd ver,
         depends_on_step sd ver,
         healthcheck_step sd,
         ports_step T sd ver,
         volumes_step T sd ver] h0) (\<lambda>h'. Inr (sd, h')))"

section \<open>ConfigDenormalizer: \<open>denormalize_config\<close>\<close>

record config =
  version :: version
  services :: "pyval list"
  volumes :: pyval
  networks :: pyval
  secrets :: pyval
  configs :: pyval

definition v3_introduced_name_key :: "string \<Rightarrow> version" where
  "v3_introduced_name_key key = (if key = ''volumes'' then V3_4 else V3_5)"

fun denormalize_services ::
    "types_module \<Rightarrow> version \<Rightarrow> pyval \<Rightarrow> pyval list \<Rightarrow> heap \<Rightarrow> error + pyval list \<times> heap" where
  \<comment> \<open>the list comprehension over \<open>config.services\<close>\<close>
  "denormalize_services T ver image_digests [] h = Inr ([], h)"
| "denormalize_services T ver image_digests (service_dict # rest) h =
     then_do (if truthy h image_digests
              then then_do (getitem h service_dict ''name'') (getitem_val h image_digests)
              else Inr VNone) (\<lambda>digest.
     then_do (denormalize_service_dict T service_dict ver digest h) (\<lambda>(sd, h1).
     then_do (denormalize_services T ver image_digests rest h1) (\<lambda>(sds, h2). Inr (sd # sds, h2))))"

definition pop :: "pyval \<Rightarrow> string \<Rightarrow> heap \<Rightarrow> error + pyval \<times> heap" where
  \<comment> \<open>\<open>v.pop(k)\<close>\<close>
  "pop v k h = then_do (getitem h v k) (\<lambda>x. then_do (delitem v k h) (\<lambda>h'. Inr (x, h')))"

fun key_services :: "pyval \<Rightarrow> pyval list \<Rightarrow> heap \<Rightarrow> error + heap" where
  \<comment> \<open>\<^verbatim>\<open>{service_dict.pop('name'): service_dict for service_dict in denormalized_services}\<close>,
      filling the mapping \<open>m\<close>\<close>
  "key_services m [] h = Inr h"
| "key_services m (sd # sds) h =
     then_do (pop sd ''name'' h) (\<lambda>(name, h1).
       case name of
         VStr k \<Rightarrow> then_do (setitem m k sd h1) (key_services m sds)
       | _ \<Rightarrow> Inl TypeError)"

definition external_name_step :: "pyval \<Rightarrow> heap \<Rightarrow> error + heap" where
  \<comment> \<open>\<^verbatim>\<open>if 'external_name' in conf: del conf['external_name']\<close>\<close>
  "external_name_step conf h =
     then_do (contains h conf ''external_name'') (\<lambda>present.
       if present then delitem conf ''external_name'' h else Inr h)"

definition strips_name :: "string \<Rightarrow> version \<Rightarrow> bool" where
  \<comment> \<open>\<^verbatim>\<open>version < V2_1 or (version >= V3_0 and version < v3_introduced_name_key(key))\<close>\<close>
  "strips_name key ver \<longleftrightarrow>
     version_less ver V2_1 \<or> (version_ge ver V3_0 \<and> version_less ver (v3_introduced_name_key key))"

definition name_step :: "string \<Rightarrow> version \<Rightarrow> pyval \<Rightarrow> heap \<Rightarrow> error + heap" where
  \<comment> \<open>\<^verbatim>\<open>if 'name' in conf:
         if ...: del conf['name']
         elif 'external' in conf: conf['external'] = bool(conf['external'])\<close>\<close>
  "name_step key ver conf h =
     then_do (contains h conf ''name'') (\<lambda>present.
       if present then
         if strips_name key ver then delitem conf ''name'' h
         else
           then_do (contains h conf ''external'') (\<lambda>ext.
             if ext then
               then_do (getitem h conf ''external'') (\<lambda>x.
                 setitem conf ''external'' (VBool (truthy h x)) h)
             else Inr h)
       else Inr h)"

definition attachable_step :: "version \<Rightarrow> pyval \<Rightarrow> heap \<Rightarrow> error + heap" where
  \<comment> \<open>\<^verbatim>\<open>if 'attachable' in conf and config.version < V3_2: del conf['attachable']\<close>\<close>
  "attachable_step ver conf h =
     then_do (contains h conf ''attachable'') (\<lambda>present.
       if present \<and> version_less ver V3_2 then delitem conf ''attachable'' h else Inr h)"

definition denormalize_entry :: "string \<Rightarrow> version \<Rightarrow> pyval \<Rightarrow> heap \<Rightarrow> error + heap" where
  \<comment> \<open>the body of \<open>for name, conf in result[key].items()\<close>\<close>
  "denormalize_entry key ver conf h =
     run_steps [external_name_step conf, name_step key ver conf, attachable_step ver conf] h"

definition getattr :: "config \<Rightarrow> string \<Rightarrow> pyval" where
  "getattr cfg key =
     (if key = ''networks'' then networks cfg
      else if key = ''volumes'' then volumes cfg
      else if key = ''secrets'' then secrets cfg
      else configs cfg)"

definition group_step :: "config \<Rightarrow> pyval \<Rightarrow> string \<Rightarrow> heap \<Rightarrow> error + heap" where
  \<comment> \<open>the body of \<open>for key in ('networks', 'volumes', 'secrets', 'configs')\<close>\<close>
  "group_step cfg result key h =
     (let config_dict = getattr cfg key in
      if \<not> truthy h config_dict then Inr h
      else
        then_do (copy config_dict h) (\<lambda>(group, h1).
        then_do (setitem result key group h1) (\<lambda>h2.
        then_do (getitem h2 result key) (\<lambda>g.
          case lookup_dict h2 g of
            None \<Rightarrow> Inl AttributeError
          | Some (a, items) \<Rightarrow> run_steps (map (\<lambda>(name, conf). denormalize_entry key (version cfg) conf) items) h2))))"

definition denormalize_config :: "types_module \<Rightarrow> config \<Rightarrow> pyval \<Rightarrow> heap \<Rightarrow> error + pyval \<times> heap" where
  "denormalize_config T cfg image_digests h =
     (case new_dict [(''version'',
             VStr (if version cfg = V1 then version_str V2_1 else version_str (version cfg)))] h of
        (result, h0) \<Rightarrow>
          then_do (denormalize_services T (version cfg) image_digests (services cfg) h0)
            (\<lambda>(denormalized_services, h1).
          case new_dict [] h1 of (m, h2) \<Rightarrow>
          then_do (key_services m denormalized_services h2) (\<lambda>h3.
          then_do (setitem result ''services'' m h3) (\<lambda>h4.
          then_do (run_steps (map (group_step cfg result)
                     [''networks'', ''volumes'', ''secrets'', ''configs'']) h4) (\<lambda>h5.
            Inr (result, h5))))))"

section \<open>What a call leaves unchanged\<close>

text \<open>
  \<open>unchanged_outside W h h'\<close>: the store \<open>h'\<close> extends \<open>h\<close>; an object of \<open>h\<close> none of
  whose keys is in \<open>W\<close> is the same in \<open>h'\<close>; and any key of an object of \<open>h\<close> that is not
  in \<open>W\<close> has the same value, or is absent, in both.
\<close>

definition unchanged_outside :: "(nat \<times> string) set \<Rightarrow> heap \<Rightarrow> heap \<Rightarrow> bool" where
  "unchanged_outside W h h' \<longleftrightarrow>
     length h \<le> length h'
     \<and> (\<forall>a. a < length h \<and> (\<forall>k. (a, k) \<notin> W) \<longrightarrow> h' ! a = h ! a)
     \<and> (\<forall>a k. a < length h \<and> (a, k) \<notin> W \<longrightarrow> map_of (h' ! a) k = map_of (h ! a) k)"

definition healthcheck_keys :: "string set" where
  "healthcheck_keys = {''interval'', ''timeout'', ''start_period''}"


text \<open>A stand-in for the types module, for the examples: it has no restart policy,
  port or mount to convert.\<close>

definition example_types :: types_module where
  "example_types = \<lparr>serialize_restart_spec = (\<lambda>h v. Inr v), external_ip = (\<lambda>p. Inr VNone),
     legacy_repr = (\<lambda>h v. Inr v)\<rparr>"

section \<open>What the pattern of \<open>timeparse\<close> accepts\<close>

text \<open>
  \<open>rx_sem r w g rest\<close>: the pattern \<open>r\<close> matches the text \<open>w\<close>, capturing the groups
  \<open>g\<close>, when \<open>rest\<close> is what follows \<open>w\<close> in the input (only \<open>$\<close> looks at it).
  It says what a match is, without an order of preference; \<open>rx_match\<close> lists
  exactly these matches (\<open>rx_match_iff\<close>).
\<close>

fun rx_sem :: "rx \<Rightarrow> string \<Rightarrow> groups \<Rightarrow> string \<Rightarrow> bool" where
  "rx_sem (Chr P) w g rest = (\<exists>c. w = [c] \<and> P c \<and> g = [])"
| "rx_sem (Seq r1 r2) w g rest =
     (\<exists>w1 w2 g1 g2. w = w1 @ w2 \<and> g = g1 @ g2 \<and> rx_sem r1 w1 g1 (w2 @ rest) \<and> rx_sem r2 w2 g2 rest)"
| "rx_sem (Alt r1 r2) w g rest = (rx_sem r1 w g rest \<or> rx_sem r2 w g rest)"
| "rx_sem (Opt r) w g rest = (rx_sem r w g rest \<or> (w = [] \<and> g = []))"
| "rx_sem (Star P) w g rest = (list_all P w \<and> g = [])"
| "rx_sem (Plus P) w g rest = (w \<noteq> [] \<and> list_all P w \<and> g = [])"
| "rx_sem (Group name r) w g rest = (\<exists>g'. g = (name, w) # g' \<and> rx_sem r w g' rest)"
| "rx_sem Dollar w g rest = (w = [] \<and> g = [] \<and> (rest = [] \<or> rest = [CHR 0x0A]))"

text \<open>
  A component of a duration is a number followed by a unit.  \<open>is_number\<close> is the
  set of texts of \<open>FLOAT_NUMBER\<close>; \<open>unit_stage\<close> gives the place of a unit text, in any
  case, in the order h, m, s, ms, us (or the micro sign and s), ns.
\<close>

definition is_number :: "string \<Rightarrow> bool" where
  "is_number w =
     (let ip = takeWhile is_digit w; r = dropWhile is_digit w in
      if r = [] then ip \<noteq> []
      else hd r = CHR ''.'' \<and> list_all is_digit (tl r) \<and> (ip \<noteq> [] \<or> tl r \<noteq> []))"

definition unit_stage :: "string \<Rightarrow> nat option" where
  "unit_stage u =
     (let l = lower u in
      if l = ''h'' then Some 0
      else if l = ''m'' then Some 1
      else if l = ''s'' then Some 2
      else if l = ''ms'' then Some 3
      else if l = ''us'' \<or> l = [CHR 0xB5, CHR ''s''] then Some 4
      else if l = ''ns'' then Some 5
      else None)"

type_synonym component = "nat \<times> string \<times> string"

definition component_ok :: "component \<Rightarrow> bool" where
  "component_ok c = (case c of (j, num, u) \<Rightarrow> is_number num \<and> unit_stage u = Some j)"

definition render :: "component list \<Rightarrow> string" where
  "render comps = concat (map (\<lambda>(j, num, u). num @ u) comps)"

definition captures :: "component list \<Rightarrow> groups" where
  "captures comps = map (\<lambda>(j, num, u). (group_names ! j, num)) comps"

definition in_order_from :: "nat \<Rightarrow> component list \<Rightarrow> bool" where
  \<comment> \<open>well-formed components, from stage \<open>j\<close> on, each unit after the coarser ones\<close>
  "in_order_from j comps \<longleftrightarrow>
     list_all component_ok comps \<and> sorted_wrt (<) (map fst comps) \<and> list_all (\<lambda>c. j \<le> fst c) comps"

text \<open>The characters of a number and of a unit.\<close>

definition num_char :: "char \<Rightarrow> bool" where
  "num_char c = (is_digit c \<or> c = CHR ''.'')"

definition unit_char :: "char \<Rightarrow> bool" where
  "unit_char c = (lower_char c \<in> {CHR ''h'', CHR ''m'', CHR ''s'', CHR ''u'', CHR ''n'', CHR 0xB5})"

definition is_float :: "pynum \<Rightarrow> bool" where
  "is_float x = (case x of PFloat f \<Rightarrow> True | PInt i \<Rightarrow> False)"


section \<open>The duration formatter: properties\<close>

lemma digit_char_is_digit: "d < 10 \<Longrightarrow> is_digit (digit_char d)"
  by (simp add: is_digit_def digit_char_def)

lemma str_nat_digits: "list_all is_digit (str_nat n)"
proof (induction n rule: str_nat.induct)
  case (1 n)
  show ?case
  proof (cases "n < 10")
    case True
    then show ?thesis by (subst str_nat.simps) (simp add: digit_char_is_digit)
  next
    case False
    with 1 show ?thesis by (subst str_nat.simps) (simp add: digit_char_is_digit)
  qed
qed


lemma div_mod_chain:
  fixes n :: int
  assumes "0 < a" "0 < b"
  shows "(n mod a = 0 \<and> (n div a) mod b = 0) \<longleftrightarrow> n mod (a * b) = 0"
  by (metis assms(1) dvd_div_iff_mult dvd_mult_left less_int_code(1) mod_0_imp_dvd mod_eq_0_iff_dvd mult.commute)

lemma ns_time_pair_cases:
  "ns_time_pair n =
    (if n mod 1000 = 0 then
       if n div 1000 mod 1000 = 0 then
         if n div 1000000 mod 1000 = 0 then
           if n div 1000000000 mod 60 = 0 then
             if n div 60000000000 mod 60 = 0 then (n div 3600000000000, ''h'')
             else (n div 60000000000, ''m'')
           else (n div 1000000000, ''s'')
         else (n div 1000000, ''ms'')
       else (n div 1000, ''us'')
     else (n, ''ns''))"
proof -
  have d: "n div 1000 div 1000 = n div 1000000" "n div 1000000 div 1000 = n div 1000000000"
    "n div 1000000000 div 60 = n div 60000000000" "n div 60000000000 div 60 = n div 3600000000000"
    by (simp_all add: div_mult2_eq [symmetric])
  show ?thesis
    unfolding ns_time_pair_def table_def
    by (simp only: promote.simps Let_def d)
qed

lemma value_at_simps:
  "value_at 0 n = n" "value_at 1 n = n div 1000" "value_at (Suc 0) n = n div 1000" "value_at 2 n = n div 1000000"
  "value_at 3 n = n div 1000000000" "value_at 4 n = n div 60000000000"
  "value_at 5 n = n div 3600000000000"
  by (simp_all add: value_at_def chain_factors_def numeral_eq_Suc)

lemma all_less_simps:
  "(\<forall>j<(0::nat). P j) = True"
  "(\<forall>j<(1::nat). P j) = P 0"
  "(\<forall>j<(2::nat). P j) = (P 0 \<and> P 1)"
  "(\<forall>j<(3::nat). P j) = (P 0 \<and> P 1 \<and> P 2)"
  "(\<forall>j<(4::nat). P j) = (P 0 \<and> P 1 \<and> P 2 \<and> P 3)"
  "(\<forall>j<(5::nat). P j) = (P 0 \<and> P 1 \<and> P 2 \<and> P 3 \<and> P 4)"
  by (auto simp: numeral_eq_Suc less_Suc_eq)

lemma chain_units_nth:
  "chain_units ! 0 = ''ns''" "chain_units ! 1 = ''us''" "chain_units ! 2 = ''ms''"
  "chain_units ! 3 = ''s''" "chain_units ! 4 = ''m''" "chain_units ! 5 = ''h''"
  by (simp_all add: chain_units_def)

lemma stops_at_0_iff: "stops_at 0 n \<longleftrightarrow> n mod 1000 \<noteq> 0"
  by (simp add: stops_at_def value_at_simps chain_factors_def all_less_simps)

lemma stops_at_1_iff: "stops_at 1 n \<longleftrightarrow> n mod 1000 = 0 \<and> n div 1000 mod 1000 \<noteq> 0"
  by (simp add: stops_at_def value_at_simps chain_factors_def all_less_simps)

lemma stops_at_2_iff: "stops_at 2 n \<longleftrightarrow> n mod 1000 = 0 \<and> n div 1000 mod 1000 = 0 \<and> n div 1000000 mod 1000 \<noteq> 0"
  by (simp add: stops_at_def value_at_simps chain_factors_def all_less_simps)

lemma stops_at_3_iff: "stops_at 3 n \<longleftrightarrow> n mod 1000 = 0 \<and> n div 1000 mod 1000 = 0 \<and> n div 1000000 mod 1000 = 0 \<and> n div 1000000000 mod 60 \<noteq> 0"
  by (simp add: stops_at_def value_at_simps chain_factors_def all_less_simps)

lemma stops_at_4_iff: "stops_at 4 n \<longleftrightarrow> n mod 1000 = 0 \<and> n div 1000 mod 1000 = 0 \<and> n div 1000000 mod 1000 = 0 \<and> n div 1000000000 mod 60 = 0 \<and> n div 60000000000 mod 60 \<noteq> 0"
  by (simp add: stops_at_def value_at_simps chain_factors_def all_less_simps)

lemma stops_at_5_iff: "stops_at 5 n \<longleftrightarrow> n mod 1000 = 0 \<and> n div 1000 mod 1000 = 0 \<and> n div 1000000 mod 1000 = 0 \<and> n div 1000000000 mod 60 = 0 \<and> n div 60000000000 mod 60 = 0"
  by (simp add: stops_at_def value_at_simps chain_factors_def all_less_simps)

lemma stops_0:
  assumes "n mod 1000 \<noteq> 0"
  shows "stops_at 0 n \<and> ns_time_pair n = (value_at 0 n, chain_units ! 0)"
proof
  show "stops_at 0 n"
    using assms by (simp only: stops_at_0_iff simp_thms)
  have "ns_time_pair n = (n, ''ns'')"
    using assms by (simp only: ns_time_pair_cases if_True if_False simp_thms)
  then show "ns_time_pair n = (value_at 0 n, chain_units ! 0)"
    by (simp only: value_at_simps chain_units_nth)
qed

lemma stops_1:
  assumes "n mod 1000 = 0" "n div 1000 mod 1000 \<noteq> 0"
  shows "stops_at 1 n \<and> ns_time_pair n = (value_at 1 n, chain_units ! 1)"
proof
  show "stops_at 1 n"
    using assms by (simp only: stops_at_1_iff simp_thms)
  have "ns_time_pair n = (n div 1000, ''us'')"
    using assms by (simp only: ns_time_pair_cases if_True if_False simp_thms)
  then show "ns_time_pair n = (value_at 1 n, chain_units ! 1)"
    by (simp only: value_at_simps chain_units_nth)
qed

lemma stops_2:
  assumes "n mod 1000 = 0" "n div 1000 mod 1000 = 0" "n div 1000000 mod 1000 \<noteq> 0"
  shows "stops_at 2 n \<and> ns_time_pair n = (value_at 2 n, chain_units ! 2)"
proof
  show "stops_at 2 n"
    using assms by (simp only: stops_at_2_iff simp_thms)
  have "ns_time_pair n = (n div 1000000, ''ms'')"
    using assms by (simp only: ns_time_pair_cases if_True if_False simp_thms)
  then show "ns_time_pair n = (value_at 2 n, chain_units ! 2)"
    by (simp only: value_at_simps chain_units_nth)
qed

lemma stops_3:
  assumes "n mod 1000 = 0" "n div 1000 mod 1000 = 0" "n div 1000000 mod 1000 = 0" "n div 1000000000 mod 60 \<noteq> 0"
  shows "stops_at 3 n \<and> ns_time_pair n = (value_at 3 n, chain_units ! 3)"
proof
  show "stops_at 3 n"
    using assms by (simp only: stops_at_3_iff simp_thms)
  have "ns_time_pair n = (n div 1000000000, ''s'')"
    using assms by (simp only: ns_time_pair_cases if_True if_False simp_thms)
  then show "ns_time_pair n = (value_at 3 n, chain_units ! 3)"
    by (simp only: value_at_simps chain_units_nth)
qed

lemma stops_4:
  assumes "n mod 1000 = 0" "n div 1000 mod 1000 = 0" "n div 1000000 mod 1000 = 0" "n div 1000000000 mod 60 = 0" "n div 60000000000 mod 60 \<noteq> 0"
  shows "stops_at 4 n \<and> ns_time_pair n = (value_at 4 n, chain_units ! 4)"
proof
  show "stops_at 4 n"
    using assms by (simp only: stops_at_4_iff simp_thms)
  have "ns_time_pair n = (n div 60000000000, ''m'')"
    using assms by (simp only: ns_time_pair_cases if_True if_False simp_thms)
  then show "ns_time_pair n = (value_at 4 n, chain_units ! 4)"
    by (simp only: value_at_simps chain_units_nth)
qed

lemma stops_5:
  assumes "n mod 1000 = 0" "n div 1000 mod 1000 = 0" "n div 1000000 mod 1000 = 0" "n div 1000000000 mod 60 = 0" "n div 60000000000 mod 60 = 0"
  shows "stops_at 5 n \<and> ns_time_pair n = (value_at 5 n, chain_units ! 5)"
proof
  show "stops_at 5 n"
    using assms by (simp only: stops_at_5_iff simp_thms)
  have "ns_time_pair n = (n div 3600000000000, ''h'')"
    using assms by (simp only: ns_time_pair_cases if_True if_False simp_thms)
  then show "ns_time_pair n = (value_at 5 n, chain_units ! 5)"
    by (simp only: value_at_simps chain_units_nth)
qed

lemma ns_time_pair_stops:
  "\<exists>k. stops_at k n \<and> ns_time_pair n = (value_at k n, chain_units ! k)"
proof (cases "n mod 1000 = 0")
  case False
  then show ?thesis using stops_0 [of n] by (intro exI)
next
  case a: True
  show ?thesis
  proof (cases "n div 1000 mod 1000 = 0")
    case False
    then show ?thesis using stops_1 [OF a] by (intro exI)
  next
    case b: True
    show ?thesis
    proof (cases "n div 1000000 mod 1000 = 0")
      case False
      then show ?thesis using stops_2 [OF a b] by (intro exI)
    next
      case c: True
      show ?thesis
      proof (cases "n div 1000000000 mod 60 = 0")
        case False
        then show ?thesis using stops_3 [OF a b c] by (intro exI)
      next
        case d: True
        show ?thesis
        proof (cases "n div 60000000000 mod 60 = 0")
          case False
          then show ?thesis using stops_4 [OF a b c d] by (intro exI)
        next
          case True
          then show ?thesis using stops_5 [OF a b c d] by (intro exI)
        qed
      qed
    qed
  qed
qed


lemma length_chain_factors: "length chain_factors = 5"
  by (simp add: chain_factors_def)

lemma chain_factors_pos: "k < 5 \<Longrightarrow> 0 < chain_factors ! k"
  by (auto simp: chain_factors_def less_Suc_eq numeral_eq_Suc)

lemma value_at_Suc: "k < 5 \<Longrightarrow> value_at (Suc k) n = value_at k n div chain_factors ! k"
proof -
  assume k: "k < 5"
  then have "take (Suc k) chain_factors = take k chain_factors @ [chain_factors ! k]"
    by (simp add: take_Suc_conv_app_nth length_chain_factors)
  then have "value_at (Suc k) n = n div (prod_list (take k chain_factors) * chain_factors ! k)"
    by (simp add: value_at_def)
  also have "\<dots> = n div prod_list (take k chain_factors) div chain_factors ! k"
    using chain_factors_pos [OF k] by (simp add: zdiv_zmult2_eq)
  finally show ?thesis by (simp add: value_at_def)
qed

lemma stops_at_exact_aux:
  "k \<le> 5 \<Longrightarrow> (\<forall>j<k. value_at j n mod (chain_factors ! j) = 0) \<Longrightarrow>
     value_at k n * prod_list (take k chain_factors) = n"
proof (induction k)
  case 0
  then show ?case by (simp add: value_at_def)
next
  case (Suc k)
  then have k: "k < 5" and ih: "value_at k n * prod_list (take k chain_factors) = n"
    and m: "value_at k n mod (chain_factors ! k) = 0"
    by simp_all
  have t: "take (Suc k) chain_factors = take k chain_factors @ [chain_factors ! k]"
    using k by (simp add: take_Suc_conv_app_nth length_chain_factors)
  have "value_at (Suc k) n * chain_factors ! k = value_at k n"
    using m by (simp add: value_at_Suc [OF k] mod_0_imp_dvd)
  then have "value_at (Suc k) n * prod_list (take (Suc k) chain_factors)
      = value_at k n * prod_list (take k chain_factors)"
    by (simp add: t mult.assoc [symmetric] mult.commute mult.left_commute)
  with ih show ?case by simp
qed

lemma stops_at_exact: "stops_at k n \<Longrightarrow> value_at k n * prod_list (take k chain_factors) = n"
  by (simp add: stops_at_def stops_at_exact_aux)

lemma prod_list_pos_int: "(\<forall>x\<in>set xs. (0::int) < x) \<Longrightarrow> 0 < prod_list xs"
  by (induction xs) simp_all

lemma value_at_nonneg: "0 \<le> n \<Longrightarrow> 0 \<le> value_at k n"
proof -
  assume n: "0 \<le> n"
  have "\<forall>x\<in>set (take k chain_factors). 0 < x"
    by (auto simp: chain_factors_def dest!: in_set_takeD)
  then have "0 < prod_list (take k chain_factors)"
    by (rule prod_list_pos_int)
  with n show ?thesis by (simp add: value_at_def pos_imp_zdiv_nonneg_iff)
qed

text \<open>
  Claim C2.  For a non-negative nanosecond count \<open>n\<close> the formatter walks the chain
  ns, us (x1000), ms (x1000), s (x1000), m (x60), h (x60): there is a number \<open>k\<close> of
  promotions such that each of the first \<open>k\<close> divisions left remainder zero and the next
  one, if there is one, does not (\<open>stops_at\<close>); the value reached times the factors
  passed is \<open>n\<close> again; and the result is that value, written with decimal digits
  only, followed by the suffix of the \<open>k\<close>-th unit.  \<open>n\<close> ranges over all of
  \<^typ>\<open>int\<close>, so there is no ceiling.  The three documented examples hold.
\<close>

theorem serialize_ns_time_value_promotion_chain:
  "(0 \<le> n \<longrightarrow>
      (\<exists>k. stops_at k n
         \<and> value_at k n * prod_list (take k chain_factors) = n
         \<and> list_all is_digit (str_nat (nat (value_at k n)))
         \<and> serialize_ns_time_value n = str_nat (nat (value_at k n)) @ chain_units ! k))
   \<and> serialize_ns_time_value (24 * 60 * 10 ^ 9) = ''24m''
   \<and> serialize_ns_time_value (24 * 60 * 60 * 10 ^ 9) = ''24h''
   \<and> serialize_ns_time_value (1000 * 60 * 60 * 10 ^ 9) = ''1000h''"
proof (intro conjI impI)
  assume n: "0 \<le> n"
  obtain k where k: "stops_at k n" and p: "ns_time_pair n = (value_at k n, chain_units ! k)"
    using ns_time_pair_stops by blast
  have "serialize_ns_time_value n = str_nat (nat (value_at k n)) @ chain_units ! k"
    using value_at_nonneg [OF n, of k] by (simp add: serialize_ns_time_value_def p str_int_def)
  with k stops_at_exact [OF k] str_nat_digits
  show "\<exists>k. stops_at k n
         \<and> value_at k n * prod_list (take k chain_factors) = n
         \<and> list_all is_digit (str_nat (nat (value_at k n)))
         \<and> serialize_ns_time_value n = str_nat (nat (value_at k n)) @ chain_units ! k"
    by blast
next
  show "serialize_ns_time_value (24 * 60 * 10 ^ 9) = ''24m''" by code_simp
next
  show "serialize_ns_time_value (24 * 60 * 60 * 10 ^ 9) = ''24h''" by code_simp
next
  show "serialize_ns_time_value (1000 * 60 * 60 * 10 ^ 9) = ''1000h''" by code_simp
qed

theorem serialize_ns_time_value_promotion_chain_witness:
  "(0::int) \<le> 90000000000
   \<and> (\<exists>k. stops_at k 90000000000
         \<and> value_at k 90000000000 * prod_list (take k chain_factors) = 90000000000
         \<and> serialize_ns_time_value 90000000000 = str_nat (nat (value_at k 90000000000)) @ chain_units ! k)
   \<and> serialize_ns_time_value 90000000000 = ''90s''"
proof -
  have "serialize_ns_time_value 90000000000 = ''90s''" by code_simp
  then show ?thesis
    using serialize_ns_time_value_promotion_chain [of 90000000000] by auto
qed

text \<open>
  Claim C3.  Zero leaves remainder zero at every step, so it is promoted through the
  whole chain: the formatter returns \<open>0h\<close>, not \<open>0ns\<close>.
\<close>

theorem serialize_ns_time_value_zero_counterexample:
  "serialize_ns_time_value 0 \<noteq> ''0ns''"
  by code_simp

theorem serialize_ns_time_value_zero:
  "serialize_ns_time_value 0 = ''0h''"
  by code_simp

section \<open>The scalar presenter: properties\<close>

lemma replace_dollar:
  "replace ''$'' ''$$'' s = concat (map (\<lambda>c. if c = CHR ''$'' then ''$$'' else [c]) s)"
proof (induction s)
  case Nil
  show ?case by (subst replace.simps) simp
next
  case (Cons c cs)
  show ?case by (subst replace.simps) (simp add: Cons.IH)
qed

text \<open>
  Claim C7.  A string whose lower-cased text is one of y, n, yes, no, on, off, true,
  false is represented as a double-quoted scalar, any other string as a scalar with
  no style asked for.  In the dollar-escaping mode every \<open>$\<close> is first rewritten to
  \<open>$$\<close>, and the same rule is applied to the rewritten string.
\<close>

theorem serialize_string_quotes_boolean_like:
  "serialize_string data =
     ScalarNode ''tag:yaml.org,2002:str'' data
       (if lower data \<in> {''y'', ''n'', ''yes'', ''no'', ''on'', ''off'', ''true'', ''false''}
        then Some (CHR 0x22) else None)
   \<and> serialize_string_escape_dollar data =
       serialize_string (concat (map (\<lambda>c. if c = CHR ''$'' then ''$$'' else [c]) data))"
  by (simp add: serialize_string_def serialize_string_escape_dollar_def represent_str_def
      represent_scalar_def replace_dollar)

section \<open>The denormalizer: properties\<close>

subsection \<open>Results of the operators\<close>

lemma then_do_Inr: "then_do m f = Inr y \<longleftrightarrow> (\<exists>x. m = Inr x \<and> f x = Inr y)"
  by (cases m) (simp_all add: then_do_def)

lemma lookup_dict_Some: "lookup_dict h v = Some (a, d) \<longleftrightarrow> v = VRef a \<and> a < length h \<and> d = h ! a"
  by (cases v) (auto simp: lookup_dict_def)

lemma lookup_dict_None: "lookup_dict h v = None \<longleftrightarrow> (\<forall>a. v = VRef a \<longrightarrow> \<not> a < length h)"
  by (cases v) (auto simp: lookup_dict_def)

lemma contains_Inr:
  "contains h v k = Inr b \<longleftrightarrow> (\<exists>a. v = VRef a \<and> a < length h \<and> b = (map_of (h ! a) k \<noteq> None))"
  by (auto simp: contains_def lookup_dict_def split: pyval.splits)

lemma getitem_Inr:
  "getitem h v k = Inr x \<longleftrightarrow> (\<exists>a. v = VRef a \<and> a < length h \<and> map_of (h ! a) k = Some x)"
  by (auto simp: getitem_def lookup_dict_def split: pyval.splits option.splits)

lemma setitem_Inr:
  "setitem v k x h = Inr h' \<longleftrightarrow>
     (\<exists>a. v = VRef a \<and> a < length h \<and> h' = h[a := AList.update k x (h ! a)])"
  by (auto simp: setitem_def lookup_dict_def split: pyval.splits)

lemma delitem_Inr:
  "delitem v k h = Inr h' \<longleftrightarrow>
     (\<exists>a. v = VRef a \<and> a < length h \<and> map_of (h ! a) k \<noteq> None \<and> h' = h[a := AList.delete k (h ! a)])"
  by (auto simp: delitem_def lookup_dict_def split: pyval.splits if_splits)

lemma copy_Inr:
  "copy v h = Inr (r, h') \<longleftrightarrow>
     (\<exists>a. v = VRef a \<and> a < length h \<and> r = VRef (length h) \<and> h' = h @ [h ! a])"
  by (auto simp: copy_def lookup_dict_def split: pyval.splits)

lemma dict_keys_Inr:
  "dict_keys h v = Inr ks \<longleftrightarrow> (\<exists>a. v = VRef a \<and> a < length h \<and> ks = map fst (h ! a))"
  by (auto simp: dict_keys_def lookup_dict_def split: pyval.splits)

subsection \<open>The frame of each operator\<close>

lemma unchanged_outside_refl: "unchanged_outside W h h"
  by (simp add: unchanged_outside_def)

lemma unchanged_outside_trans:
  "unchanged_outside W h h1 \<Longrightarrow> unchanged_outside W h1 h2 \<Longrightarrow> unchanged_outside W h h2"
  unfolding unchanged_outside_def by (metis le_trans less_le_trans)

lemma unchanged_outside_mono:
  "unchanged_outside W h h' \<Longrightarrow> W \<subseteq> W' \<Longrightarrow> unchanged_outside W' h h'"
  unfolding unchanged_outside_def by blast

lemma unchanged_outside_update:
  assumes "a < length h" "\<And>k'. k' \<noteq> k \<Longrightarrow> map_of d k' = map_of (h ! a) k'"
  shows "unchanged_outside {(a, k)} h (h[a := d])"
  using assms unfolding unchanged_outside_def
  by (auto simp: nth_list_update)

lemma unchanged_outside_setitem:
  "setitem (VRef a) k x h = Inr h' \<Longrightarrow> unchanged_outside {(a, k)} h h'"
  by (auto simp: setitem_Inr update_conv' intro!: unchanged_outside_update)



lemma unchanged_outside_run_steps:
  assumes "\<And>step h h'. step \<in> set steps \<Longrightarrow> step h = Inr h' \<Longrightarrow> unchanged_outside W h h'"
  shows "run_steps steps h = Inr h' \<Longrightarrow> unchanged_outside W h h'"
  using assms
proof (induction steps arbitrary: h)
  case Nil
  then show ?case by (simp add: unchanged_outside_refl)
next
  case (Cons step steps)
  from Cons.prems(1) obtain h1 where s: "step h = Inr h1" and r: "run_steps steps h1 = Inr h'"
    by (auto simp: then_do_Inr)
  have "unchanged_outside W h h1" using Cons.prems(2) [of step h h1] s by simp
  moreover have "unchanged_outside W h1 h'"
  proof (rule Cons.IH [OF r])
    fix st g g'
    assume "st \<in> set steps" "st g = Inr g'"
    then show "unchanged_outside W g g'" using Cons.prems(2) [of st g g'] by simp
  qed
  ultimately show ?case by (rule unchanged_outside_trans)
qed

subsection \<open>The frame of each step of the service denormalizer\<close>

lemma image_step_frame:
  "image_step (VRef s) d h = Inr h' \<Longrightarrow> unchanged_outside {(s, ''image'')} h h'"
  by (auto simp: image_step_def unchanged_outside_refl intro: unchanged_outside_setitem split: if_splits)

lemma restart_step_frame:
  "restart_step T (VRef s) h = Inr h' \<Longrightarrow> unchanged_outside {(s, ''restart'')} h h'"
  by (auto simp: restart_step_def then_do_Inr unchanged_outside_refl
      intro: unchanged_outside_setitem split: if_splits)

lemma network_mode_step_frame:
  "network_mode_step (VRef s) ver h = Inr h' \<Longrightarrow> unchanged_outside {(s, ''network_mode'')} h h'"
  by (auto simp: network_mode_step_def then_do_Inr unchanged_outside_refl
      intro: unchanged_outside_setitem split: if_splits)


lemma healthcheck_field_step_frame:
  "healthcheck_field_step sd k h = Inr h' \<Longrightarrow> unchanged_outside (UNIV \<times> {k}) h h'"
proof -
  assume a: "healthcheck_field_step sd k h = Inr h'"
  then consider "h' = h" | b x where "setitem (VRef b) k x h = Inr h'"
    by (auto simp: healthcheck_field_step_def then_do_Inr getitem_Inr contains_Inr split: if_splits)
  then show ?thesis
  proof cases
    case 1
    then show ?thesis by (simp add: unchanged_outside_refl)
  next
    case 2
    then show ?thesis
      by (rule unchanged_outside_mono [OF unchanged_outside_setitem]) auto
  qed
qed

lemma healthcheck_step_frame:
  "healthcheck_step sd h = Inr h' \<Longrightarrow> unchanged_outside (UNIV \<times> healthcheck_keys) h h'"
proof -
  assume a: "healthcheck_step sd h = Inr h'"
  then consider "h' = h"
    | "run_steps [healthcheck_field_step sd ''interval'', healthcheck_field_step sd ''timeout'',
         healthcheck_field_step sd ''start_period''] h = Inr h'"
    by (auto simp: healthcheck_step_def then_do_Inr split: if_splits)
  then show ?thesis
  proof cases
    case 1
    then show ?thesis by (simp add: unchanged_outside_refl)
  next
    case 2
    show ?thesis
    proof (rule unchanged_outside_run_steps [OF _ 2])
      fix step h h'
      assume "step \<in> set [healthcheck_field_step sd ''interval'', healthcheck_field_step sd ''timeout'',
         healthcheck_field_step sd ''start_period'']" and "step h = Inr h'"
      then obtain k where "k \<in> healthcheck_keys" "healthcheck_field_step sd k h = Inr h'"
        by (auto simp: healthcheck_keys_def)
      then show "unchanged_outside (UNIV \<times> healthcheck_keys) h h'"
        using unchanged_outside_mono [OF healthcheck_field_step_frame, of sd k h h' "UNIV \<times> healthcheck_keys"]
        by auto
    qed
  qed
qed

lemma ports_step_frame:
  "ports_step T (VRef s) ver h = Inr h' \<Longrightarrow> unchanged_outside {(s, ''ports'')} h h'"
  by (auto simp: ports_step_def then_do_Inr unchanged_outside_refl
      intro: unchanged_outside_setitem split: if_splits)

lemma volumes_step_frame:
  "volumes_step T (VRef s) ver h = Inr h' \<Longrightarrow> unchanged_outside {(s, ''volumes'')} h h'"
  by (auto simp: volumes_step_def then_do_Inr unchanged_outside_refl
      intro: unchanged_outside_setitem split: if_splits)


subsection \<open>The service denormalizer, step by step\<close>

lemma run_steps_Cons_Inr:
  "run_steps (step # steps) h = Inr h' \<longleftrightarrow> (\<exists>h1. step h = Inr h1 \<and> run_steps steps h1 = Inr h')"
  by (simp add: then_do_Inr)

lemma denormalize_service_dict_Inr:
  "denormalize_service_dict T v ver d h = Inr (sd, h') \<longleftrightarrow>
     (\<exists>a h1 h2 h3 h4 h5 h6. v = VRef a \<and> a < length h \<and> sd = VRef (length h)
        \<and> image_step sd d (h @ [h ! a]) = Inr h1
        \<and> restart_step T sd h1 = Inr h2
        \<and> network_mode_step sd ver h2 = Inr h3
        \<and> depends_on_step sd ver h3 = Inr h4
        \<and> healthcheck_step sd h4 = Inr h5
        \<and> ports_step T sd ver h5 = Inr h6
        \<and> volumes_step T sd ver h6 = Inr h')"
  unfolding denormalize_service_dict_def
  by (auto simp: then_do_Inr copy_Inr run_steps_Cons_Inr)

lemma unchanged_outside_key:
  "unchanged_outside W h h' \<Longrightarrow> a < length h \<Longrightarrow> (a, k) \<notin> W \<Longrightarrow>
     a < length h' \<and> map_of (h' ! a) k = map_of (h ! a) k"
  by (auto simp: unchanged_outside_def)

lemma unchanged_outside_object:
  "unchanged_outside W h h' \<Longrightarrow> a < length h \<Longrightarrow> (\<And>k. (a, k) \<notin> W) \<Longrightarrow>
     a < length h' \<and> h' ! a = h ! a"
  by (auto simp: unchanged_outside_def)


lemma then_do_simps: "then_do (Inr x) f = f x" "then_do (Inl e) f = Inl e"
  by (simp_all add: then_do_def)

lemma depends_on_step_effect:
  assumes "depends_on_step (VRef s) ver h = Inr h'"
    and "map_of (h ! s) ''depends_on'' = Some (VRef b)" and "b < length h"
  shows "s < length h' \<and> map_of (h' ! s) ''depends_on'' =
     Some (if version_less ver V2_1 \<or> version_ge ver V3_0
           then VList (map VStr (sort (map fst (h ! b)))) else VRef b)"
proof -
  have s: "s < length h"
    using assms(1) by (auto simp: depends_on_step_def then_do_Inr contains_Inr)
  have c: "contains h (VRef s) ''depends_on'' = Inr True"
    using s assms(2) by (simp add: contains_Inr)
  have g: "getitem h (VRef s) ''depends_on'' = Inr (VRef b)"
    using s assms(2) by (simp add: getitem_Inr)
  have k: "dict_keys h (VRef b) = Inr (map fst (h ! b))"
    using assms(3) by (simp add: dict_keys_Inr)
  show ?thesis
  proof (cases "version_less ver V2_1 \<or> version_ge ver V3_0")
    case True
    with assms(1) have "setitem (VRef s) ''depends_on'' (VList (map VStr (sort (map fst (h ! b))))) h = Inr h'"
      by (simp add: depends_on_step_def c g k then_do_simps)
    then have "h' = h[s := AList.update ''depends_on'' (VList (map VStr (sort (map fst (h ! b))))) (h ! s)]"
      by (simp add: setitem_Inr)
    with s True show ?thesis by (simp add: update_conv')
  next
    case False
    with assms(1) have "h' = h"
      by (simp add: depends_on_step_def c then_do_simps)
    with s False assms(2) show ?thesis by simp
  qed
qed


lemma earlier_steps_frame:
  assumes "image_step (VRef s) d h0 = Inr h1"
    and "restart_step T (VRef s) h1 = Inr h2"
  shows "unchanged_outside {(s, ''image''), (s, ''restart'')} h0 h2"
proof -
  let ?W = "{(s, ''image''), (s, ''restart'')}"
  have "unchanged_outside ?W h0 h1"
    by (rule unchanged_outside_mono [OF image_step_frame [OF assms(1)]]) simp
  moreover have "unchanged_outside ?W h1 h2"
    by (rule unchanged_outside_mono [OF restart_step_frame [OF assms(2)]]) simp
  ultimately show ?thesis by (blast intro: unchanged_outside_trans)
qed

lemma hc_key_simps:
  "''network_mode'' \<notin> healthcheck_keys" "''depends_on'' \<notin> healthcheck_keys"
  "''version'' \<notin> healthcheck_keys" "''name'' \<notin> healthcheck_keys"
  by (simp_all add: healthcheck_keys_def)


lemma service_depends_on:
  assumes run: "denormalize_service_dict T service_dict ver image_digest h = Inr (sd, h')"
    and deps: "getitem h service_dict ''depends_on'' = Inr deps"
    and keys: "dict_keys h deps = Inr ks"
  shows "getitem h' sd ''depends_on'' =
     Inr (if version_less ver V2_1 \<or> version_ge ver V3_0 then VList (map VStr (sort ks)) else deps)"
proof -
  let ?s = "length h"
  from run obtain a h1 h2 h3 h4 h5 h6 where v: "service_dict = VRef a" "a < length h"
    and sd: "sd = VRef ?s"
    and s1: "image_step (VRef ?s) image_digest (h @ [h ! a]) = Inr h1"
    and s2: "restart_step T (VRef ?s) h1 = Inr h2"
    and s3: "network_mode_step (VRef ?s) ver h2 = Inr h3"
    and s4: "depends_on_step (VRef ?s) ver h3 = Inr h4"
    and s5: "healthcheck_step (VRef ?s) h4 = Inr h5"
    and s6: "ports_step T (VRef ?s) ver h5 = Inr h6"
    and s7: "volumes_step T (VRef ?s) ver h6 = Inr h'"
    unfolding denormalize_service_dict_Inr by blast
  from keys obtain b where b: "deps = VRef b" "b < length h" "ks = map fst (h ! b)"
    by (auto simp: dict_keys_Inr)
  from deps v have d0: "map_of ((h @ [h ! a]) ! ?s) ''depends_on'' = Some (VRef b)"
    using b by (auto simp: getitem_Inr)
  let ?W = "{(?s, ''image''), (?s, ''restart''), (?s, ''network_mode'')}"
  have f: "unchanged_outside ?W (h @ [h ! a]) h3"
  proof -
    have "unchanged_outside ?W (h @ [h ! a]) h2"
      by (rule unchanged_outside_mono [OF earlier_steps_frame [OF s1 s2]]) simp
    moreover have "unchanged_outside ?W h2 h3"
      by (rule unchanged_outside_mono [OF network_mode_step_frame [OF s3]]) simp
    ultimately show ?thesis by (rule unchanged_outside_trans)
  qed
  from unchanged_outside_key [OF f, of ?s "''depends_on''"] d0
  have d3: "map_of (h3 ! ?s) ''depends_on'' = Some (VRef b)" by simp
  from unchanged_outside_object [OF f, of b] b
  have b3: "b < length h3" "h3 ! b = h ! b" by (simp_all add: nth_append)
  from depends_on_step_effect [OF s4 d3 b3(1)] b3(2) b(3)
  have d4: "?s < length h4" "map_of (h4 ! ?s) ''depends_on'' =
     Some (if version_less ver V2_1 \<or> version_ge ver V3_0
           then VList (map VStr (sort ks)) else VRef b)" by simp_all
  have g: "unchanged_outside ({(?s, ''ports''), (?s, ''volumes'')} \<union> UNIV \<times> healthcheck_keys) h4 h'"
  proof -
    let ?V = "{(?s, ''ports''), (?s, ''volumes'')} \<union> UNIV \<times> healthcheck_keys"
    have "unchanged_outside ?V h4 h5"
      by (rule unchanged_outside_mono [OF healthcheck_step_frame [OF s5]]) auto
    moreover have "unchanged_outside ?V h5 h6"
      by (rule unchanged_outside_mono [OF ports_step_frame [OF s6]]) auto
    moreover have "unchanged_outside ?V h6 h'"
      by (rule unchanged_outside_mono [OF volumes_step_frame [OF s7]]) auto
    ultimately show ?thesis by (blast intro: unchanged_outside_trans)
  qed
  from unchanged_outside_key [OF g d4(1), of "''depends_on''"] d4(2)
  have "?s < length h' \<and> map_of (h' ! ?s) ''depends_on'' =
     Some (if version_less ver V2_1 \<or> version_ge ver V3_0
           then VList (map VStr (sort ks)) else VRef b)"
    by (simp add: hc_key_simps)
  with sd b(1) show ?thesis by (simp add: getitem_Inr)
qed


subsection \<open>The frame of the config denormalizer\<close>










lemma external_name_step_ref: "external_name_step conf h = Inr h1 \<Longrightarrow> \<exists>c. conf = VRef c"
  by (auto simp: external_name_step_def then_do_Inr contains_Inr)

lemma denormalize_entry_Inr:
  "denormalize_entry key ver conf h = Inr h' \<longleftrightarrow>
     (\<exists>c h1 h2. conf = VRef c \<and> external_name_step (VRef c) h = Inr h1
        \<and> name_step key ver (VRef c) h1 = Inr h2 \<and> attachable_step ver (VRef c) h2 = Inr h')"
proof
  assume "denormalize_entry key ver conf h = Inr h'"
  then obtain h1 h2 where s: "external_name_step conf h = Inr h1"
    "name_step key ver conf h1 = Inr h2" "attachable_step ver conf h2 = Inr h'"
    by (auto simp: denormalize_entry_def then_do_Inr)
  from external_name_step_ref [OF s(1)] obtain c where "conf = VRef c" by blast
  with s show "\<exists>c h1 h2. conf = VRef c \<and> external_name_step (VRef c) h = Inr h1
        \<and> name_step key ver (VRef c) h1 = Inr h2 \<and> attachable_step ver (VRef c) h2 = Inr h'"
    by blast
next
  assume "\<exists>c h1 h2. conf = VRef c \<and> external_name_step (VRef c) h = Inr h1
        \<and> name_step key ver (VRef c) h1 = Inr h2 \<and> attachable_step ver (VRef c) h2 = Inr h'"
  then show "denormalize_entry key ver conf h = Inr h'"
    by (auto simp: denormalize_entry_def then_do_simps)
qed









subsection \<open>What the entry steps compute\<close>

lemma map_of_None_iff: "map_of d k = None \<longleftrightarrow> k \<notin> fst ` set d"
  by (simp add: map_of_eq_None_iff)

lemma external_name_step_effect:
  assumes "external_name_step (VRef c) h = Inr h1"
  shows "c < length h \<and> h1 = h[c := AList.delete ''external_name'' (h ! c)]"
proof (cases "map_of (h ! c) ''external_name''")
  case None
  with assms show ?thesis
    by (auto simp: external_name_step_def then_do_Inr contains_Inr map_of_None_iff)
next
  case (Some y)
  with assms show ?thesis
    by (auto simp: external_name_step_def then_do_Inr contains_Inr delitem_Inr)
qed

lemma name_step_effect:
  assumes "name_step key ver (VRef c) h = Inr h'"
  shows "c < length h \<and> h' = h[c :=
     (if map_of (h ! c) ''name'' = None then h ! c
      else if strips_name key ver then AList.delete ''name'' (h ! c)
      else case map_of (h ! c) ''external'' of
             None \<Rightarrow> h ! c
           | Some x \<Rightarrow> AList.update ''external'' (VBool (truthy h x)) (h ! c))]"
proof -
  from assms have c: "c < length h"
    by (auto simp: name_step_def then_do_Inr contains_Inr)
  show ?thesis
  proof (cases "map_of (h ! c) ''name''")
    case None
    with assms c show ?thesis
      by (auto simp: name_step_def then_do_Inr contains_Inr)
  next
    case (Some n)
    show ?thesis
    proof (cases "strips_name key ver")
      case True
      with assms c Some show ?thesis
        by (auto simp: name_step_def then_do_Inr contains_Inr delitem_Inr)
    next
      case False
      show ?thesis
      proof (cases "map_of (h ! c) ''external''")
        case None
        with assms c Some False show ?thesis
          by (auto simp: name_step_def then_do_Inr contains_Inr)
      next
        case (Some x)
        with assms c \<open>map_of (h ! c) ''name'' = Some n\<close> False show ?thesis
          by (auto simp: name_step_def then_do_Inr contains_Inr getitem_Inr setitem_Inr)
      qed
    qed
  qed
qed

lemma attachable_step_effect:
  assumes "attachable_step ver (VRef c) h = Inr h'"
  shows "c < length h \<and> h' = h[c :=
     (if map_of (h ! c) ''attachable'' \<noteq> None \<and> version_less ver V3_2
      then AList.delete ''attachable'' (h ! c) else h ! c)]"
  using assms
  by (auto simp: attachable_step_def then_do_Inr contains_Inr delitem_Inr split: if_splits)

lemma denormalize_entry_external:
  assumes run: "denormalize_entry key ver conf h = Inr h'"
    and conf: "lookup_dict h conf = Some (c, d)"
  shows "map_of (h' ! c) ''name'' = (if strips_name key ver then None else map_of d ''name'')"
    and "map_of d ''name'' \<noteq> None \<and> \<not> strips_name key ver \<and> map_of d ''external'' = Some x \<Longrightarrow>
          map_of (h' ! c) ''external''
            = Some (VBool (truthy (h[c := AList.delete ''external_name'' d]) x))"
    and "map_of d ''name'' = None \<or> strips_name key ver \<Longrightarrow>
          map_of (h' ! c) ''external'' = map_of d ''external''"
proof -
  from conf have cd: "conf = VRef c" "c < length h" "d = h ! c"
    by (simp_all add: lookup_dict_Some)
  from run cd(1) obtain h1 h2 where a: "external_name_step (VRef c) h = Inr h1"
    and b: "name_step key ver (VRef c) h1 = Inr h2"
    and e: "attachable_step ver (VRef c) h2 = Inr h'"
    unfolding denormalize_entry_Inr by blast
  let ?d1 = "AList.delete ''external_name'' d"
  from external_name_step_effect [OF a] cd
  have h1: "h1 = h[c := ?d1]" "h1 ! c = ?d1" "c < length h1" by simp_all
  have n1: "map_of ?d1 ''name'' = map_of d ''name''"
    and x1: "map_of ?d1 ''external'' = map_of d ''external''"
    by simp_all
  let ?d2 = "if map_of d ''name'' = None then ?d1
      else if strips_name key ver then AList.delete ''name'' ?d1
      else case map_of d ''external'' of
             None \<Rightarrow> ?d1
           | Some x \<Rightarrow> AList.update ''external'' (VBool (truthy h1 x)) ?d1"
  from name_step_effect [OF b] h1(2,3)
  have h2: "h2 ! c = ?d2" "c < length h2"
    by (simp_all add: n1 x1 cong: option.case_cong)
  from attachable_step_effect [OF e] h2
  have h': "h' ! c = (if map_of ?d2 ''attachable'' \<noteq> None \<and> version_less ver V3_2
      then AList.delete ''attachable'' ?d2 else ?d2)"
    by simp
  show "map_of (h' ! c) ''name'' = (if strips_name key ver then None else map_of d ''name'')"
    unfolding h' by (auto simp: delete_conv' update_conv' split: option.splits)
  show "map_of (h' ! c) ''external''
            = Some (VBool (truthy (h[c := AList.delete ''external_name'' d]) x))"
    if "map_of d ''name'' \<noteq> None \<and> \<not> strips_name key ver \<and> map_of d ''external'' = Some x"
    using that unfolding h' h1(1) by (auto simp: delete_conv' update_conv')
  show "map_of (h' ! c) ''external'' = map_of d ''external''"
    if "map_of d ''name'' = None \<or> strips_name key ver"
    using that unfolding h' by (auto simp: delete_conv' update_conv')
qed




text \<open>
  Claim C9.  For a service whose \<open>depends_on\<close> is a mapping with keys \<open>ks\<close>: before
  \<open>V2_1\<close> and from \<open>V3_0\<close> on, the denormalized \<open>depends_on\<close> is the sequence of the keys
  in sorted order (the strings are ordered lexicographically by code point); the
  conditions are gone.  For a version in between it is the mapping that was given.
\<close>

theorem depends_on_collapse:
  "denormalize_service_dict T service_dict ver image_digest h = Inr (sd, h')
     \<and> getitem h service_dict ''depends_on'' = Inr deps
     \<and> dict_keys h deps = Inr ks \<longrightarrow>
   getitem h' sd ''depends_on''
     = Inr (if version_less ver V2_1 \<or> version_ge ver V3_0 then VList (map VStr (sort ks)) else deps)
   \<and> sorted (sort ks) \<and> set (sort ks) = set ks \<and> length (sort ks) = length ks"
proof (intro impI conjI)
  assume a: "denormalize_service_dict T service_dict ver image_digest h = Inr (sd, h')
     \<and> getitem h service_dict ''depends_on'' = Inr deps
     \<and> dict_keys h deps = Inr ks"
  then show "getitem h' sd ''depends_on''
     = Inr (if version_less ver V2_1 \<or> version_ge ver V3_0 then VList (map VStr (sort ks)) else deps)"
    using service_depends_on [of T service_dict ver image_digest h sd h' deps ks] by simp
qed simp_all

theorem depends_on_collapse_witness:
  "denormalize_service_dict example_types (VRef 0) V3_0 VNone
       [[(''name'', VStr ''web''), (''depends_on'', VRef 1)],
        [(''b'', VStr ''cond2''), (''a'', VStr ''cond1'')]]
     = Inr (VRef 2,
       [[(''name'', VStr ''web''), (''depends_on'', VRef 1)],
        [(''b'', VStr ''cond2''), (''a'', VStr ''cond1'')],
        [(''name'', VStr ''web''), (''depends_on'', VList [VStr ''a'', VStr ''b''])]])
   \<and> getitem [[(''name'', VStr ''web''), (''depends_on'', VRef 1)],
        [(''b'', VStr ''cond2''), (''a'', VStr ''cond1'')]] (VRef 0) ''depends_on'' = Inr (VRef 1)
   \<and> dict_keys [[(''name'', VStr ''web''), (''depends_on'', VRef 1)],
        [(''b'', VStr ''cond2''), (''a'', VStr ''cond1'')]] (VRef 1) = Inr [''b'', ''a'']
   \<and> getitem [[(''name'', VStr ''web''), (''depends_on'', VRef 1)],
        [(''b'', VStr ''cond2''), (''a'', VStr ''cond1'')],
        [(''name'', VStr ''web''), (''depends_on'', VList [VStr ''a'', VStr ''b''])]]
       (VRef 2) ''depends_on'' = Inr (VList (map VStr (sort [''b'', ''a''])))
   \<and> sort [''b'', ''a''] = [''a'', ''b'']"
proof -
  let ?h = "[[(''name'', VStr ''web''), (''depends_on'', VRef 1)],
        [(''b'', VStr ''cond2''), (''a'', VStr ''cond1'')]]"
  let ?h' = "[[(''name'', VStr ''web''), (''depends_on'', VRef 1)],
        [(''b'', VStr ''cond2''), (''a'', VStr ''cond1'')],
        [(''name'', VStr ''web''), (''depends_on'', VList [VStr ''a'', VStr ''b''])]]"
  have a: "denormalize_service_dict example_types (VRef 0) V3_0 VNone ?h = Inr (VRef 2, ?h')"
    by code_simp
  have b: "getitem ?h (VRef 0) ''depends_on'' = Inr (VRef 1)"
    by code_simp
  have c: "dict_keys ?h (VRef 1) = Inr [''b'', ''a'']"
    by code_simp
  have v: "version_less V3_0 V2_1 \<or> version_ge V3_0 V3_0"
    by code_simp
  have s: "sort [''b'', ''a''] = [''a'', ''b'']"
    by code_simp
  from depends_on_collapse [of example_types "VRef 0" V3_0 VNone ?h "VRef 2" ?h' "VRef 1" "[''b'', ''a'']"]
    a b c v
  have "getitem ?h' (VRef 2) ''depends_on'' = Inr (VList (map VStr (sort [''b'', ''a''])))"
    by simp
  with a b c s show ?thesis by simp
qed

text \<open>
  Claim C10.  For an entry of any resource group (\<open>key\<close>) at any version: the \<open>name\<close> key
  is removed exactly under the version-gated rule \<open>strips_name\<close>.  When the entry has a
  \<open>name\<close> that the rule keeps, a present \<open>external\<close> becomes the plain boolean of its
  truth value (read after \<open>external_name\<close> has been removed).  When the entry has no
  \<open>name\<close>, or the rule removes it, \<open>external\<close> is what it was, whatever its form.
\<close>

theorem external_coerced_only_with_surviving_name:
  "denormalize_entry key ver conf h = Inr h' \<and> lookup_dict h conf = Some (c, d) \<longrightarrow>
     map_of (h' ! c) ''name'' = (if strips_name key ver then None else map_of d ''name'')
   \<and> (map_of d ''name'' \<noteq> None \<and> \<not> strips_name key ver \<longrightarrow>
        (\<forall>x. map_of d ''external'' = Some x \<longrightarrow>
           map_of (h' ! c) ''external''
             = Some (VBool (truthy (h[c := AList.delete ''external_name'' d]) x))))
   \<and> (map_of d ''name'' = None \<or> strips_name key ver \<longrightarrow>
        map_of (h' ! c) ''external'' = map_of d ''external'')"
proof (intro impI conjI allI)
  assume a: "denormalize_entry key ver conf h = Inr h' \<and> lookup_dict h conf = Some (c, d)"
  then have run: "denormalize_entry key ver conf h = Inr h'"
    and conf: "lookup_dict h conf = Some (c, d)" by simp_all
  show "map_of (h' ! c) ''name'' = (if strips_name key ver then None else map_of d ''name'')"
    by (rule denormalize_entry_external(1) [OF run conf])
  show "map_of (h' ! c) ''external''
          = Some (VBool (truthy (h[c := AList.delete ''external_name'' d]) x))"
    if "map_of d ''name'' \<noteq> None \<and> \<not> strips_name key ver" "map_of d ''external'' = Some x" for x
    using denormalize_entry_external(2) [OF run conf, of x] that by simp
  show "map_of (h' ! c) ''external'' = map_of d ''external''"
    if "map_of d ''name'' = None \<or> strips_name key ver"
    using denormalize_entry_external(3) [OF run conf] that by simp
qed


theorem external_coerced_only_with_surviving_name_witness:
  "denormalize_entry ''networks'' V2_1 (VRef 0)
       [[(''name'', VStr ''front''), (''external'', VRef 1)], [(''name'', VStr ''front'')]]
     = Inr [[(''name'', VStr ''front''), (''external'', VBool True)], [(''name'', VStr ''front'')]]
   \<and> denormalize_entry ''networks'' V1 (VRef 0)
       [[(''name'', VStr ''front''), (''external'', VRef 1)], [(''name'', VStr ''front'')]]
     = Inr [[(''external'', VRef 1)], [(''name'', VStr ''front'')]]
   \<and> denormalize_entry ''networks'' V3_5 (VRef 0)
       [[(''external'', VRef 1)], [(''name'', VStr ''front'')]]
     = Inr [[(''external'', VRef 1)], [(''name'', VStr ''front'')]]
   \<and> lookup_dict [[(''name'', VStr ''front''), (''external'', VRef 1)], [(''name'', VStr ''front'')]]
        (VRef 0) = Some (0, [(''name'', VStr ''front''), (''external'', VRef 1)])
   \<and> \<not> strips_name ''networks'' V2_1
   \<and> map_of ([[(''name'', VStr ''front''), (''external'', VBool True)], [(''name'', VStr ''front'')]] ! 0)
        ''external''
     = Some (VBool (truthy
         ([[(''name'', VStr ''front''), (''external'', VRef 1)], [(''name'', VStr ''front'')]]
            [0 := AList.delete ''external_name'' [(''name'', VStr ''front''), (''external'', VRef 1)]])
         (VRef 1)))"
proof -
  let ?d = "[(''name'', VStr ''front''), (''external'', VRef 1)]"
  let ?h = "[?d, [(''name'', VStr ''front'')]]"
  let ?h' = "[[(''name'', VStr ''front''), (''external'', VBool True)], [(''name'', VStr ''front'')]]"
  have a: "denormalize_entry ''networks'' V2_1 (VRef 0) ?h = Inr ?h'"
    by code_simp
  have b: "denormalize_entry ''networks'' V1 (VRef 0) ?h
     = Inr [[(''external'', VRef 1)], [(''name'', VStr ''front'')]]"
    by code_simp
  have c: "denormalize_entry ''networks'' V3_5 (VRef 0)
       [[(''external'', VRef 1)], [(''name'', VStr ''front'')]]
     = Inr [[(''external'', VRef 1)], [(''name'', VStr ''front'')]]"
    by code_simp
  have l: "lookup_dict ?h (VRef 0) = Some (0, ?d)"
    by code_simp
  have s: "\<not> strips_name ''networks'' V2_1"
    by code_simp
  have n: "map_of ?d ''name'' \<noteq> None" "map_of ?d ''external'' = Some (VRef 1)"
    by simp_all
  from external_coerced_only_with_surviving_name [of "''networks''" V2_1 "VRef 0" ?h ?h' 0 ?d] a l s n
  have "map_of (?h' ! 0) ''external''
     = Some (VBool (truthy (?h[0 := AList.delete ''external_name'' ?d]) (VRef 1)))"
    by blast
  with a b c l s show ?thesis by blast
qed

text \<open>
  Claim C4.  \<open>dict.copy()\<close> copies one level.  The healthcheck mapping of the copy
  is the healthcheck mapping of the input, and the entries of a copied resource group
  are the entries of the input.  Denormalizing the service
  \<open>{name: web, healthcheck: {interval: 90000000000}}\<close> rewrites the interval of the
  input's healthcheck to \<open>90s\<close>; denormalizing the same service again then fails with
  \<open>ValueError\<close>, at \<open>int('90s')\<close>.  Denormalizing a config with the network
  \<open>front: {external_name: front_net, driver: bridge}\<close> deletes \<open>external_name\<close> from the
  input's entry.
\<close>

theorem denormalize_mutates_its_input:
  "denormalize_service_dict T (VRef 0) V3_5 VNone
       [[(''name'', VStr ''web''), (''healthcheck'', VRef 1)], [(''interval'', VInt 90000000000)]]
     = Inr (VRef 2,
       [[(''name'', VStr ''web''), (''healthcheck'', VRef 1)], [(''interval'', VStr ''90s'')],
        [(''name'', VStr ''web''), (''healthcheck'', VRef 1)]])
   \<and> denormalize_service_dict T (VRef 0) V3_5 VNone
       [[(''name'', VStr ''web''), (''healthcheck'', VRef 1)], [(''interval'', VStr ''90s'')],
        [(''name'', VStr ''web''), (''healthcheck'', VRef 1)]]
     = Inl ValueError
   \<and> denormalize_config T
       \<lparr>version = V3_5, services = [], volumes = VNone, networks = VRef 0, secrets = VNone,
        configs = VNone\<rparr> VNone
       [[(''front'', VRef 1)], [(''external_name'', VStr ''front_net''), (''driver'', VStr ''bridge'')]]
     = Inr (VRef 2,
       [[(''front'', VRef 1)], [(''driver'', VStr ''bridge'')],
        [(''version'', VStr ''3.5''), (''services'', VRef 3), (''networks'', VRef 4)], [],
        [(''front'', VRef 1)]])"
  by code_simp

section \<open>The duration parser: properties\<close>

subsection \<open>The matcher lists the matches of the pattern\<close>

lemma star_rests_iff: "r \<in> set (star_rests P s) \<longleftrightarrow> (\<exists>w. s = w @ r \<and> list_all P w)"
proof (induction s)
  case Nil
  then show ?case by auto
next
  case (Cons c cs)
  show ?case
  proof (cases "P c")
    case True
    have "(\<exists>w. c # cs = w @ r \<and> list_all P w) \<longleftrightarrow> r = c # cs \<or> (\<exists>w. cs = w @ r \<and> list_all P w)"
      using True by (auto simp: Cons_eq_append_conv)
    with True Cons show ?thesis by auto
  next
    case False
    have "(\<exists>w. c # cs = w @ r \<and> list_all P w) \<longleftrightarrow> r = c # cs"
      using False by (auto simp: Cons_eq_append_conv)
    with False show ?thesis by auto
  qed
qed

lemma rx_match_iff:
  "(g, rest) \<in> set (rx_match r s) \<longleftrightarrow> (\<exists>w. s = w @ rest \<and> rx_sem r w g rest)"
proof (induction r arbitrary: s g rest)
  case (Chr P)
  show ?case by (cases s) auto
next
  case (Seq r1 r2)
  have "(g, rest) \<in> set (rx_match (Seq r1 r2) s) \<longleftrightarrow>
      (\<exists>g1 s1 g2. (g1, s1) \<in> set (rx_match r1 s) \<and> (g2, rest) \<in> set (rx_match r2 s1) \<and> g = g1 @ g2)"
    by (auto simp: image_iff) force
  also have "\<dots> \<longleftrightarrow> (\<exists>g1 s1 g2 w1 w2. s = w1 @ s1 \<and> rx_sem r1 w1 g1 s1 \<and> s1 = w2 @ rest
      \<and> rx_sem r2 w2 g2 rest \<and> g = g1 @ g2)"
    unfolding Seq.IH by blast
  also have "\<dots> \<longleftrightarrow> (\<exists>w. s = w @ rest \<and> rx_sem (Seq r1 r2) w g rest)"
  proof
    assume "\<exists>g1 s1 g2 w1 w2. s = w1 @ s1 \<and> rx_sem r1 w1 g1 s1 \<and> s1 = w2 @ rest
      \<and> rx_sem r2 w2 g2 rest \<and> g = g1 @ g2"
    then obtain g1 g2 w1 w2 where "s = w1 @ w2 @ rest" "rx_sem r1 w1 g1 (w2 @ rest)"
      "rx_sem r2 w2 g2 rest" "g = g1 @ g2" by blast
    then have "s = (w1 @ w2) @ rest \<and> rx_sem (Seq r1 r2) (w1 @ w2) g rest"
      by auto
    then show "\<exists>w. s = w @ rest \<and> rx_sem (Seq r1 r2) w g rest" by blast
  next
    assume "\<exists>w. s = w @ rest \<and> rx_sem (Seq r1 r2) w g rest"
    then obtain w1 w2 g1 g2 where "s = (w1 @ w2) @ rest" "g = g1 @ g2"
      "rx_sem r1 w1 g1 (w2 @ rest)" "rx_sem r2 w2 g2 rest" by auto
    then have "s = w1 @ (w2 @ rest) \<and> rx_sem r1 w1 g1 (w2 @ rest) \<and> w2 @ rest = w2 @ rest
      \<and> rx_sem r2 w2 g2 rest \<and> g = g1 @ g2" by simp
    then show "\<exists>g1 s1 g2 w1 w2. s = w1 @ s1 \<and> rx_sem r1 w1 g1 s1 \<and> s1 = w2 @ rest
      \<and> rx_sem r2 w2 g2 rest \<and> g = g1 @ g2" by blast
  qed
  finally show ?case .
next
  case (Alt r1 r2)
  then show ?case by auto
next
  case (Opt r)
  then show ?case by auto
next
  case (Star P)
  show ?case by (auto simp: star_rests_iff)
next
  case (Plus P)
  show ?case
  proof (cases s)
    case Nil
    then show ?thesis by auto
  next
    case (Cons c cs)
    show ?thesis
    proof (cases "P c")
      case True
      have "(\<exists>w. c # cs = w @ rest \<and> w \<noteq> [] \<and> list_all P w) \<longleftrightarrow> (\<exists>w. cs = w @ rest \<and> list_all P w)"
        using True by (auto simp: Cons_eq_append_conv)
      with True Cons show ?thesis by (auto simp: star_rests_iff)
    next
      case False
      then have "\<not> (\<exists>w. c # cs = w @ rest \<and> w \<noteq> [] \<and> list_all P w)"
        by (auto simp: Cons_eq_append_conv)
      with False Cons show ?thesis by auto
    qed
  qed
next
  case (Group name r)
  have "(g, rest) \<in> set (rx_match (Group name r) s) \<longleftrightarrow>
      (\<exists>g'. (g', rest) \<in> set (rx_match r s) \<and> g = (name, take (length s - length rest) s) # g')"
    by (auto simp: image_iff) force
  also have "\<dots> \<longleftrightarrow> (\<exists>g' w. s = w @ rest \<and> rx_sem r w g' rest
      \<and> g = (name, take (length s - length rest) s) # g')"
    unfolding Group.IH by blast
  also have "\<dots> \<longleftrightarrow> (\<exists>w. s = w @ rest \<and> rx_sem (Group name r) w g rest)"
    by auto
  finally show ?case .
next
  case Dollar
  show ?case by auto
qed


subsection \<open>Characters\<close>

lemma lower_char_num: "num_char c \<Longrightarrow> lower_char c = c"
  by (auto simp: num_char_def is_digit_def lower_char_def)

lemma lower_char_space: "is_space c \<Longrightarrow> lower_char c = c"
  by (auto simp: is_space_def lower_char_def)

lemma num_not_space: "num_char c \<Longrightarrow> \<not> is_space c"
  by (auto simp: num_char_def is_digit_def is_space_def)

lemma num_not_unit: "num_char c \<Longrightarrow> \<not> unit_char c"
proof
  assume n: "num_char c" and u: "unit_char c"
  from u lower_char_num [OF n] have "c \<in> {CHR ''h'', CHR ''m'', CHR ''s'', CHR ''u'', CHR ''n'', CHR 0xB5}"
    by (simp add: unit_char_def)
  with n show False by (auto simp: num_char_def is_digit_def)
qed

lemma unit_not_space: "unit_char c \<Longrightarrow> \<not> is_space c"
proof
  assume u: "unit_char c" and s: "is_space c"
  from u lower_char_space [OF s] have "c \<in> {CHR ''h'', CHR ''m'', CHR ''s'', CHR ''u'', CHR ''n'', CHR 0xB5}"
    by (simp add: unit_char_def)
  with s show False by (auto simp: is_space_def)
qed

lemma is_number_chars: "is_number w \<Longrightarrow> w \<noteq> [] \<and> list_all num_char w"
proof -
  assume a: "is_number w"
  let ?ip = "takeWhile is_digit w" and ?r = "dropWhile is_digit w"
  have w: "w = ?ip @ ?r" by simp
  have ip: "list_all num_char ?ip"
    by (auto simp: list_all_iff num_char_def dest: set_takeWhileD)
  show ?thesis
  proof (cases "?r = []")
    case True
    then have "?ip = w" by (metis append_Nil2 takeWhile_dropWhile_id)
    with a True ip show ?thesis by (auto simp: is_number_def Let_def)
  next
    case False
    with a have r: "hd ?r = CHR ''.''" "list_all is_digit (tl ?r)"
      by (simp_all add: is_number_def Let_def)
    from False have "?r = hd ?r # tl ?r" by simp
    moreover have "list_all num_char (hd ?r # tl ?r)"
      using r by (auto simp: list_all_iff num_char_def)
    ultimately have "list_all num_char ?r" by simp
    with ip have "list_all num_char w" by (metis list_all_append takeWhile_dropWhile_id)
    moreover from False have "w \<noteq> []" by auto
    ultimately show ?thesis by simp
  qed
qed

lemma unit_stage_chars: "unit_stage u = Some j \<Longrightarrow> u \<noteq> [] \<and> list_all unit_char u \<and> j < 6"
proof -
  assume a: "unit_stage u = Some j"
  then have "lower u \<in> {''h'', ''m'', ''s'', ''ms'', ''us'', [CHR 0xB5, CHR ''s''], ''ns''} \<and> j < 6"
    by (auto simp: unit_stage_def Let_def split: if_splits)
  then show ?thesis
    by (auto simp: lower_def unit_char_def list_all_iff)
qed


subsection \<open>The texts of a number and of a unit\<close>

lemma dot_not_digit: "\<not> is_digit CHR ''.''"
  by (simp add: is_digit_def)

lemma is_number_iff:
  "is_number w \<longleftrightarrow>
     (\<exists>ds es. ds \<noteq> [] \<and> list_all is_digit ds \<and> list_all is_digit es
         \<and> (w = ds @ es \<or> w = ds @ CHR ''.'' # es))
     \<or> (\<exists>es. es \<noteq> [] \<and> list_all is_digit es \<and> w = CHR ''.'' # es)"
  (is "?L \<longleftrightarrow> ?A \<or> ?B")
proof
  assume a: ?L
  let ?ip = "takeWhile is_digit w" and ?r = "dropWhile is_digit w"
  have w: "?ip @ ?r = w" by simp
  have ip: "list_all is_digit ?ip"
    by (auto simp: list_all_iff dest: set_takeWhileD)
  show "?A \<or> ?B"
  proof (cases "?r = []")
    case True
    with a have "?ip \<noteq> []" by (simp add: is_number_def Let_def)
    moreover from True w have "w = ?ip @ []" by (metis append_Nil2)
    ultimately have "?ip \<noteq> [] \<and> list_all is_digit ?ip \<and> list_all is_digit []
       \<and> (w = ?ip @ [] \<or> w = ?ip @ CHR ''.'' # [])" using ip by simp
    then have ?A by blast
    then show ?thesis ..
  next
    case False
    with a have r: "hd ?r = CHR ''.''" "list_all is_digit (tl ?r)" "?ip \<noteq> [] \<or> tl ?r \<noteq> []"
      unfolding is_number_def Let_def by (simp_all del: dropWhile_eq_Nil_conv takeWhile_eq_Nil_iff)
    from False r(1) have "?r = CHR ''.'' # tl ?r" by (metis list.collapse)
    with w have w': "w = ?ip @ CHR ''.'' # tl ?r" by metis
    show ?thesis
    proof (cases "?ip = []")
      case True
      with r(3) w' r(2) have ?B by (metis append_Nil)
      then show ?thesis ..
    next
      case False
      with w' r(2) ip have ?A by blast
      then show ?thesis ..
    qed
  qed
next
  assume "?A \<or> ?B"
  then consider ds es where "ds \<noteq> []" "list_all is_digit ds" "list_all is_digit es" "w = ds @ es"
    | ds es where "ds \<noteq> []" "list_all is_digit ds" "list_all is_digit es" "w = ds @ CHR ''.'' # es"
    | es where "es \<noteq> []" "list_all is_digit es" "w = CHR ''.'' # es"
    by blast
  then show ?L
  proof cases
    case 1
    then have "list_all is_digit w" "w \<noteq> []" by simp_all
    then have tw: "takeWhile is_digit w = w" and dw: "dropWhile is_digit w = []"
      by (simp_all add: list_all_iff)
    show ?thesis
      unfolding is_number_def Let_def tw dw using \<open>w \<noteq> []\<close> by simp
  next
    case 2
    then have "takeWhile is_digit w = ds" "dropWhile is_digit w = CHR ''.'' # es"
      by (simp_all add: list_all_iff takeWhile_append2 dropWhile_append2 dot_not_digit)
    with 2 show ?thesis by (simp add: is_number_def)
  next
    case 3
    then have "takeWhile is_digit w = []" "dropWhile is_digit w = CHR ''.'' # es"
      by (simp_all add: dot_not_digit)
    with 3 show ?thesis by (simp add: is_number_def)
  qed
qed

lemma number_alt1_sem:
  "rx_sem (Seq (Plus is_digit) (Seq (Opt (Chr (\<lambda>c. c = CHR ''.''))) (Star is_digit))) w g rest \<longleftrightarrow>
     g = [] \<and> (\<exists>ds es. ds \<noteq> [] \<and> list_all is_digit ds \<and> list_all is_digit es
         \<and> (w = ds @ es \<or> w = ds @ CHR ''.'' # es))"
  (is "?L \<longleftrightarrow> ?R")
proof
  assume ?L
  then obtain ds w2 w3 es where "w = ds @ w2" "ds \<noteq> []" "list_all is_digit ds" "w2 = w3 @ es"
    "w3 = [CHR ''.''] \<or> w3 = []" "list_all is_digit es" "g = []"
    by auto
  then have "g = [] \<and> ds \<noteq> [] \<and> list_all is_digit ds \<and> list_all is_digit es
         \<and> (w = ds @ es \<or> w = ds @ CHR ''.'' # es)" by auto
  then show ?R by blast
next
  assume ?R
  then obtain ds es where g: "g = []" and d: "ds \<noteq> []" "list_all is_digit ds" "list_all is_digit es"
    and w: "w = ds @ es \<or> w = ds @ CHR ''.'' # es" by blast
  from w show ?L
  proof
    assume "w = ds @ es"
    then have "w = ds @ ([] @ es)" by simp
    with g d show ?L
      apply simp
      apply (rule exI [of _ ds], rule exI [of _ es], simp)
      apply (rule exI [of _ "[]"], rule exI [of _ es], simp)
      done
  next
    assume "w = ds @ CHR ''.'' # es"
    with g d show ?L
      apply simp
      apply (rule exI [of _ ds], rule exI [of _ "CHR ''.'' # es"], simp)
      apply (rule exI [of _ "[CHR ''.'']"], rule exI [of _ es], simp)
      done
  qed
qed

lemma number_alt2_sem:
  "rx_sem (Seq (Chr (\<lambda>c. c = CHR ''.'')) (Plus is_digit)) w g rest \<longleftrightarrow>
     g = [] \<and> (\<exists>es. es \<noteq> [] \<and> list_all is_digit es \<and> w = CHR ''.'' # es)"
  by auto

lemma FLOAT_NUMBER_sem: "rx_sem FLOAT_NUMBER w g rest \<longleftrightarrow> g = [] \<and> is_number w"
proof -
  have "rx_sem FLOAT_NUMBER w g rest \<longleftrightarrow>
      rx_sem (Seq (Plus is_digit) (Seq (Opt (Chr (\<lambda>c. c = CHR ''.''))) (Star is_digit))) w g rest
      \<or> rx_sem (Seq (Chr (\<lambda>c. c = CHR ''.'')) (Plus is_digit)) w g rest"
    by (simp add: FLOAT_NUMBER_def)
  then show ?thesis
    unfolding number_alt1_sem number_alt2_sem is_number_iff by blast
qed

lemma lower_char_units:
  "lower_char CHR ''h'' = CHR ''h''" "lower_char CHR ''m'' = CHR ''m''"
  "lower_char CHR ''s'' = CHR ''s''" "lower_char CHR ''u'' = CHR ''u''"
  "lower_char CHR ''n'' = CHR ''n''" "lower_char (CHR 0xB5) = CHR 0xB5"
  by (simp_all add: lower_char_def)

lemma literal_sem: "rx_sem (literal l) w g rest \<longleftrightarrow> (\<exists>c. w = [c] \<and> lower_char c = lower_char l \<and> g = [])"
  by (simp add: literal_def)

lemma literal2_sem:
  "rx_sem (Seq (literal a) (literal b)) w g rest \<longleftrightarrow>
     (\<exists>c d. w = [c, d] \<and> lower_char c = lower_char a \<and> lower_char d = lower_char b \<and> g = [])"
  (is "?L \<longleftrightarrow> ?R")
proof
  assume ?L
  then show ?R by (auto simp: literal_sem)
next
  assume ?R
  then obtain c d where "w = [c] @ [d]" "lower_char c = lower_char a" "lower_char d = lower_char b"
    "g = [] @ []" by auto
  then show ?L unfolding rx_sem.simps literal_sem by blast
qed

lemma lower_eq1: "lower u = [a] \<longleftrightarrow> (\<exists>c. u = [c] \<and> lower_char c = a)"
  by (auto simp: lower_def map_eq_Cons_conv)

lemma lower_eq2: "lower u = [a, b] \<longleftrightarrow> (\<exists>c d. u = [c, d] \<and> lower_char c = a \<and> lower_char d = b)"
  by (auto simp: lower_def map_eq_Cons_conv)

lemma unit_stage_iff:
  "unit_stage u = Some j \<longleftrightarrow>
     (j = 0 \<and> lower u = ''h'') \<or> (j = 1 \<and> lower u = ''m'') \<or> (j = 2 \<and> lower u = ''s'')
     \<or> (j = 3 \<and> lower u = ''ms'') \<or> (j = 4 \<and> (lower u = ''us'' \<or> lower u = [CHR 0xB5, CHR ''s'']))
     \<or> (j = 5 \<and> lower u = ''ns'')"
  by (auto simp: unit_stage_def Let_def)

lemma unit_h_sem: "rx_sem (literal CHR ''h'') u g rest \<longleftrightarrow> g = [] \<and> unit_stage u = Some 0"
  by (auto simp: literal_sem unit_stage_iff lower_eq1 lower_char_units)

lemma unit_m_sem: "rx_sem (literal CHR ''m'') u g rest \<longleftrightarrow> g = [] \<and> unit_stage u = Some 1"
  by (auto simp: literal_sem unit_stage_iff lower_eq1 lower_char_units)

lemma unit_s_sem: "rx_sem (literal CHR ''s'') u g rest \<longleftrightarrow> g = [] \<and> unit_stage u = Some 2"
  by (auto simp: literal_sem unit_stage_iff lower_eq1 lower_char_units)

lemma unit_ms_sem:
  "rx_sem (Seq (literal CHR ''m'') (literal CHR ''s'')) u g rest \<longleftrightarrow> g = [] \<and> unit_stage u = Some 3"
  unfolding literal2_sem by (auto simp: unit_stage_iff lower_eq2 lower_char_units)

lemma unit_us_sem:
  "rx_sem (Alt (Seq (literal CHR ''u'') (literal CHR ''s'')) (Seq (literal (CHR 0xB5)) (literal CHR ''s'')))
       u g rest \<longleftrightarrow> g = [] \<and> unit_stage u = Some 4"
  unfolding rx_sem.simps(3) literal2_sem
  by (auto simp: unit_stage_iff lower_eq2 lower_char_units)

lemma unit_ns_sem:
  "rx_sem (Seq (literal CHR ''n'') (literal CHR ''s'')) u g rest \<longleftrightarrow> g = [] \<and> unit_stage u = Some 5"
  unfolding literal2_sem by (auto simp: unit_stage_iff lower_eq2 lower_char_units)

lemma component_sem:
  assumes "\<And>u g rest. rx_sem L u g rest \<longleftrightarrow> g = [] \<and> unit_stage u = Some j"
  shows "rx_sem (Seq (Group n FLOAT_NUMBER) L) w g rest \<longleftrightarrow>
     (\<exists>num u. w = num @ u \<and> is_number num \<and> unit_stage u = Some j \<and> g = [(n, num)])"
  by (auto simp: assms FLOAT_NUMBER_sem)

lemmas stage_sems =
  component_sem [OF unit_h_sem, of "''hours''", folded HOURS_def]
  component_sem [OF unit_m_sem, of "''mins''", folded MINS_def]
  component_sem [OF unit_s_sem, of "''secs''", folded SECS_def]
  component_sem [OF unit_ms_sem, of "''milli''", folded MILLI_def]
  component_sem [OF unit_us_sem, of "''micro''", folded MICRO_def]
  component_sem [OF unit_ns_sem, of "''nano''", folded NANO_def]


subsection \<open>The texts of the whole pattern\<close>

lemma render_simps [simp]:
  "render [] = []" "render ((j, num, u) # cs) = num @ u @ render cs"
  by (simp_all add: render_def)

lemma captures_simps [simp]:
  "captures [] = []" "captures ((j, num, u) # cs) = (group_names ! j, num) # captures cs"
  by (simp_all add: captures_def)

lemma in_order_from_Nil [simp]: "in_order_from j []"
  by (simp add: in_order_from_def)

lemma in_order_from_Cons:
  "in_order_from j ((i, num, u) # cs) \<longleftrightarrow>
     j \<le> i \<and> is_number num \<and> unit_stage u = Some i \<and> in_order_from (Suc i) cs"
  by (auto simp: in_order_from_def component_ok_def list_all_iff Suc_le_eq)

lemma in_order_from_mono: "in_order_from j cs \<Longrightarrow> i \<le> j \<Longrightarrow> in_order_from i cs"
  by (auto simp: in_order_from_def list_all_iff)

lemma in_order_from_6: "in_order_from 6 cs \<longleftrightarrow> cs = []"
proof
  assume a: "in_order_from 6 cs"
  show "cs = []"
  proof (cases cs)
    case Nil
    then show ?thesis .
  next
    case (Cons c cs')
    obtain i num u where "c = (i, num, u)" by (cases c) auto
    with a Cons have "6 \<le> i" "unit_stage u = Some i" by (simp_all add: in_order_from_Cons)
    with unit_stage_chars [of u i] show ?thesis by simp
  qed
qed simp

lemma chain_step:
  assumes C: "\<And>w g rest. rx_sem C w g rest \<longleftrightarrow>
       (\<exists>num u. w = num @ u \<and> is_number num \<and> unit_stage u = Some j \<and> g = [(n, num)])"
    and R: "\<And>w g rest. rx_sem R w g rest \<longleftrightarrow>
       (\<exists>comps. w = render comps \<and> g = captures comps \<and> in_order_from k comps)"
    and n: "group_names ! j = n" and k: "k = Suc j"
  shows "rx_sem (Seq (opt C) R) w g rest \<longleftrightarrow>
       (\<exists>comps. w = render comps \<and> g = captures comps \<and> in_order_from j comps)"
    (is "?L \<longleftrightarrow> ?R")
proof
  assume ?L
  then obtain w1 w2 g1 g2 where w: "w = w1 @ w2" "g = g1 @ g2"
    and c: "rx_sem C w1 g1 (w2 @ rest) \<or> (w1 = [] \<and> g1 = [])"
    and r: "rx_sem R w2 g2 rest"
    by (auto simp: opt_def)
  from r obtain cs where cs: "w2 = render cs" "g2 = captures cs" "in_order_from (Suc j) cs"
    unfolding R k by blast
  from c show ?R
  proof
    assume "rx_sem C w1 g1 (w2 @ rest)"
    then obtain num u where "w1 = num @ u" "is_number num" "unit_stage u = Some j" "g1 = [(n, num)]"
      unfolding C by blast
    with w cs have "w = render ((j, num, u) # cs) \<and> g = captures ((j, num, u) # cs)
        \<and> in_order_from j ((j, num, u) # cs)"
      by (simp add: in_order_from_Cons n)
    then show ?R by blast
  next
    assume "w1 = [] \<and> g1 = []"
    with w cs in_order_from_mono [OF cs(3), of j] show ?R by auto
  qed
next
  assume ?R
  then obtain comps where cs: "w = render comps" "g = captures comps" "in_order_from j comps"
    by blast
  have skip: "rx_sem (Seq (opt C) R) w g rest" if "in_order_from (Suc j) comps"
  proof -
    from that cs have "rx_sem R w g rest" unfolding R k by blast
    then have "w = [] @ w \<and> g = [] @ g \<and> rx_sem (opt C) [] [] (w @ rest) \<and> rx_sem R w g rest"
      by (simp add: opt_def)
    then show ?thesis unfolding rx_sem.simps(2) by blast
  qed
  show ?L
  proof (cases comps)
    case Nil
    then show ?thesis using skip by simp
  next
    case (Cons c cs')
    obtain i num u where c: "c = (i, num, u)" by (cases c) auto
    with cs(3) Cons have i: "j \<le> i" "is_number num" "unit_stage u = Some i" "in_order_from (Suc i) cs'"
      by (simp_all add: in_order_from_Cons)
    show ?thesis
    proof (cases "i = j")
      case True
      with i have "rx_sem C (num @ u) [(n, num)] (render cs' @ rest)"
        unfolding C by blast
      then have 1: "rx_sem (opt C) (num @ u) [(n, num)] (render cs' @ rest)"
        by (simp add: opt_def)
      from i(4) True have 2: "rx_sem R (render cs') (captures cs') rest"
        unfolding R k by blast
      from cs Cons c True have "w = (num @ u) @ render cs'" "g = [(n, num)] @ captures cs'"
        by (simp_all add: n)
      with 1 2 show ?thesis unfolding rx_sem.simps(2) by blast
    next
      case False
      with i(1) have "Suc j \<le> i" by simp
      with i Cons c have "in_order_from (Suc j) comps" by (simp add: in_order_from_Cons)
      then show ?thesis by (rule skip)
    qed
  qed
qed

lemma chain_end:
  "rx_sem (opt NANO) w g rest \<longleftrightarrow>
     (\<exists>comps. w = render comps \<and> g = captures comps \<and> in_order_from 5 comps)"
  (is "?L \<longleftrightarrow> ?R")
proof
  assume ?L
  then consider num u where "w = num @ u" "is_number num" "unit_stage u = Some 5" "g = [(''nano'', num)]"
    | "w = []" "g = []"
    by (auto simp: opt_def stage_sems)
  then show ?R
  proof cases
    case 1
    then have "w = render [(5, num, u)] \<and> g = captures [(5, num, u)] \<and> in_order_from 5 [(5, num, u)]"
      by (simp add: in_order_from_Cons group_names_def)
    then show ?thesis by blast
  next
    case 2
    then have "w = render [] \<and> g = captures [] \<and> in_order_from 5 []" by simp
    then show ?thesis by blast
  qed
next
  assume ?R
  then obtain comps where cs: "w = render comps" "g = captures comps" "in_order_from 5 comps"
    by blast
  show ?L
  proof (cases comps)
    case Nil
    with cs show ?thesis by (simp add: opt_def)
  next
    case (Cons c cs')
    obtain i num u where c: "c = (i, num, u)" by (cases c) auto
    with cs(3) Cons have i: "5 \<le> i" "is_number num" "unit_stage u = Some i" "in_order_from (Suc i) cs'"
      by (simp_all add: in_order_from_Cons)
    from unit_stage_chars [OF i(3)] i(1) have i5: "i = 5" by simp
    with i(4) have "cs' = []" by (simp add: in_order_from_6)
    with cs Cons c i i5 show ?thesis
      by (auto simp: opt_def stage_sems group_names_def)
  qed
qed

lemma chain_4:
  "rx_sem (Seq (opt MICRO) (opt NANO)) w g rest \<longleftrightarrow>
     (\<exists>comps. w = render comps \<and> g = captures comps \<and> in_order_from 4 comps)"
  by (rule chain_step [OF stage_sems(5) chain_end]) (simp_all add: group_names_def)

lemma chain_3:
  "rx_sem (Seq (opt MILLI) (Seq (opt MICRO) (opt NANO))) w g rest \<longleftrightarrow>
     (\<exists>comps. w = render comps \<and> g = captures comps \<and> in_order_from 3 comps)"
  by (rule chain_step [OF stage_sems(4) chain_4]) (simp_all add: group_names_def)

lemma chain_2:
  "rx_sem (Seq (opt SECS) (Seq (opt MILLI) (Seq (opt MICRO) (opt NANO)))) w g rest \<longleftrightarrow>
     (\<exists>comps. w = render comps \<and> g = captures comps \<and> in_order_from 2 comps)"
  by (rule chain_step [OF stage_sems(3) chain_3]) (simp_all add: group_names_def)

lemma chain_1:
  "rx_sem (Seq (opt MINS) (Seq (opt SECS) (Seq (opt MILLI) (Seq (opt MICRO) (opt NANO))))) w g rest \<longleftrightarrow>
     (\<exists>comps. w = render comps \<and> g = captures comps \<and> in_order_from 1 comps)"
  by (rule chain_step [OF stage_sems(2) chain_2]) (simp_all add: group_names_def)


lemma TIMEFORMAT_sem:
  "rx_sem TIMEFORMAT w g rest \<longleftrightarrow>
     (\<exists>comps. w = render comps \<and> g = captures comps \<and> in_order_from 0 comps)"
  unfolding TIMEFORMAT_def
  by (rule chain_step [OF stage_sems(1) chain_1]) (simp_all add: group_names_def)

lemma timeparse_rx_sem:
  "rx_sem timeparse_rx w g rest \<longleftrightarrow>
     (\<exists>ws1 comps ws2. w = ws1 @ render comps @ ws2 \<and> list_all is_space ws1 \<and> list_all is_space ws2
        \<and> g = captures comps \<and> in_order_from 0 comps \<and> (rest = [] \<or> rest = [CHR 0x0A]))"
  (is "?L \<longleftrightarrow> ?R")
proof
  assume ?L
  then obtain ws1 w2 g1 g2 where 0: "w = ws1 @ w2" "g = g1 @ g2"
    "rx_sem (Star is_space) ws1 g1 (w2 @ rest)"
    and 2: "rx_sem (Seq TIMEFORMAT (Seq (Star is_space) Dollar)) w2 g2 rest"
    unfolding timeparse_rx_def rx_sem.simps(2) [of "Star is_space"] by blast
  from 0 have 1: "w = ws1 @ w2" "list_all is_space ws1" "g = g2" by simp_all
  from 2 obtain w3 w4 g3 g4 where 3: "w2 = w3 @ w4" "g2 = g3 @ g4"
    and 4: "rx_sem TIMEFORMAT w3 g3 (w4 @ rest)"
    and 5: "rx_sem (Seq (Star is_space) Dollar) w4 g4 rest"
    unfolding rx_sem.simps(2) [of TIMEFORMAT] by blast
  from 5 have 6: "list_all is_space w4" "g4 = []" "rest = [] \<or> rest = [CHR 0x0A]"
    by auto
  from 4 obtain comps where "w3 = render comps" "g3 = captures comps" "in_order_from 0 comps"
    unfolding TIMEFORMAT_sem by blast
  with 1 3 6 show ?R by auto
next
  assume ?R
  then obtain ws1 comps ws2 where w: "w = ws1 @ render comps @ ws2"
    and s: "list_all is_space ws1" "list_all is_space ws2"
    and g: "g = captures comps" "in_order_from 0 comps" and r: "rest = [] \<or> rest = [CHR 0x0A]"
    by blast
  from s(2) r have 5: "rx_sem (Seq (Star is_space) Dollar) ws2 [] rest"
    by auto
  from g have 4: "rx_sem TIMEFORMAT (render comps) g (ws2 @ rest)"
    unfolding TIMEFORMAT_sem by blast
  from 4 5 have 2: "rx_sem (Seq TIMEFORMAT (Seq (Star is_space) Dollar)) (render comps @ ws2) (g @ []) rest"
    unfolding rx_sem.simps(2) [of TIMEFORMAT] by blast
  from s(1) have 1: "rx_sem (Star is_space) ws1 [] ((render comps @ ws2) @ rest)"
    by simp
  from 1 2 have "rx_sem timeparse_rx (ws1 @ (render comps @ ws2)) ([] @ (g @ [])) rest"
    unfolding timeparse_rx_def rx_sem.simps(2) [of "Star is_space"] by blast
  with w show ?L by simp
qed

subsection \<open>A duration has one reading\<close>

lemma takeWhile_prefix:
  "list_all P xs \<Longrightarrow> ys = [] \<or> \<not> P (hd ys) \<Longrightarrow> takeWhile P (xs @ ys) = xs"
  by (cases ys) (auto simp: list_all_iff takeWhile_append2)

lemma dropWhile_prefix:
  "list_all P xs \<Longrightarrow> ys = [] \<or> \<not> P (hd ys) \<Longrightarrow> dropWhile P (xs @ ys) = ys"
  by (cases ys) (auto simp: list_all_iff dropWhile_append2)

lemma render_starts:
  assumes "list_all component_ok (c # cs)"
  shows "render (c # cs) @ t \<noteq> [] \<and> num_char (hd (render (c # cs) @ t))"
proof -
  obtain j num u where c: "c = (j, num, u)" by (cases c) auto
  with assms have "component_ok (j, num, u)" by simp
  then have "is_number num" by (simp add: component_ok_def)
  from is_number_chars [OF this] obtain x xs where "num = x # xs" "num_char x"
    by (cases num) auto
  with c show ?thesis by simp
qed

lemma tail_not_unit:
  assumes "list_all component_ok cs" "list_all is_space ws"
  shows "render cs @ ws = [] \<or> \<not> unit_char (hd (render cs @ ws))"
proof (cases cs)
  case Nil
  with assms(2) show ?thesis
    by (cases ws) (auto dest: unit_not_space)
next
  case (Cons c cs')
  with render_starts [of c cs' ws] assms(1) show ?thesis
    by (auto dest: num_not_unit)
qed

lemma one_reading_aux:
  assumes "render cs @ ws = render cs' @ ws'"
    and "list_all component_ok cs" "list_all component_ok cs'"
    and "list_all is_space ws" "list_all is_space ws'"
  shows "cs = cs'"
  using assms
proof (induction cs arbitrary: cs')
  case Nil
  show ?case
  proof (cases cs')
    case Nil
    then show ?thesis by simp
  next
    case (Cons c cs'')
    with render_starts [of c cs'' ws'] Nil.prems have "ws \<noteq> [] \<and> num_char (hd ws)"
      by simp
    with Nil.prems(4) have False by (cases ws) (auto dest: num_not_space)
    then show ?thesis ..
  qed
next
  case (Cons c cs)
  obtain j num u where c: "c = (j, num, u)" by (cases c) auto
  show ?case
  proof (cases cs')
    case Nil
    with render_starts [of c cs ws] Cons.prems have "ws' \<noteq> [] \<and> num_char (hd ws')"
      by simp
    with Cons.prems(5) have False by (cases ws') (auto dest: num_not_space)
    then show ?thesis ..
  next
    case (Cons c' cs'')
    obtain j' num' u' where c': "c' = (j', num', u')" by (cases c') auto
    from Cons.prems(2) c have "component_ok (j, num, u)" and okc: "list_all component_ok cs"
      by simp_all
    then have ok: "is_number num" "unit_stage u = Some j" "list_all component_ok cs"
      by (simp_all add: component_ok_def)
    from Cons.prems(3) Cons c' have "component_ok (j', num', u')" and okc': "list_all component_ok cs''"
      by simp_all
    then have ok': "is_number num'" "unit_stage u' = Some j'" "list_all component_ok cs''"
      by (simp_all add: component_ok_def)
    let ?T = "render cs @ ws" and ?T' = "render cs'' @ ws'"
    from Cons.prems(1) c c' Cons have eq: "num @ (u @ ?T) = num' @ (u' @ ?T')"
      by simp
    have u: "u \<noteq> []" "list_all unit_char u" and u': "u' \<noteq> []" "list_all unit_char u'"
      using unit_stage_chars [OF ok(2)] unit_stage_chars [OF ok'(2)] by simp_all
    have "\<not> num_char (hd (u @ ?T))" "u @ ?T \<noteq> []"
      using u by (cases u; auto dest: num_not_unit)+
    then have 1: "takeWhile num_char (num @ (u @ ?T)) = num" "dropWhile num_char (num @ (u @ ?T)) = u @ ?T"
      using is_number_chars [OF ok(1)] by (simp_all add: takeWhile_prefix dropWhile_prefix)
    have "\<not> num_char (hd (u' @ ?T'))" "u' @ ?T' \<noteq> []"
      using u' by (cases u'; auto dest: num_not_unit)+
    then have 2: "takeWhile num_char (num' @ (u' @ ?T')) = num'"
      "dropWhile num_char (num' @ (u' @ ?T')) = u' @ ?T'"
      using is_number_chars [OF ok'(1)] by (simp_all add: takeWhile_prefix dropWhile_prefix)
    from 1 2 eq have n: "num = num'" and eq2: "u @ ?T = u' @ ?T'"
      by simp_all
    have 3: "takeWhile unit_char (u @ ?T) = u" "dropWhile unit_char (u @ ?T) = ?T"
      using u tail_not_unit [OF ok(3) Cons.prems(4)]
      by (simp_all add: takeWhile_prefix dropWhile_prefix)
    have 4: "takeWhile unit_char (u' @ ?T') = u'" "dropWhile unit_char (u' @ ?T') = ?T'"
      using u' tail_not_unit [OF ok'(3) Cons.prems(5)]
      by (simp_all add: takeWhile_prefix dropWhile_prefix)
    from 3 4 eq2 have uu: "u = u'" and eq3: "?T = ?T'"
      by simp_all
    from uu ok(2) ok'(2) have "j = j'" by simp
    moreover from Cons.IH [OF eq3 ok(3) ok'(3) Cons.prems(4,5)] have "cs = cs''" .
    ultimately show ?thesis using n uu c c' Cons by simp
  qed
qed

lemma one_reading:
  assumes eq: "ws1 @ render cs @ ws2 = ws1' @ render cs' @ ws2'"
    and ok: "list_all component_ok cs" "list_all component_ok cs'"
    and sp: "list_all is_space ws1" "list_all is_space ws2" "list_all is_space ws1'" "list_all is_space ws2'"
  shows "cs = cs'"
proof -
  have d: "dropWhile is_space (w @ render c @ v) = (if c = [] then [] else render c @ v)"
    if "list_all is_space w" "list_all is_space v" "list_all component_ok c" for w v c
  proof (cases c)
    case Nil
    with that show ?thesis by (simp add: list_all_iff)
  next
    case (Cons x xs)
    with render_starts [of x xs v] that(3) have "\<not> is_space (hd (render c @ v))" "render c @ v \<noteq> []"
      by (auto dest: num_not_space)
    with that(1) Cons show ?thesis by (simp add: dropWhile_prefix)
  qed
  from eq d [OF sp(1,2) ok(1)] d [OF sp(3,4) ok(2)]
  have e: "(if cs = [] then [] else render cs @ ws2) = (if cs' = [] then [] else render cs' @ ws2')"
    by simp
  show ?thesis
  proof (cases "cs = []")
    case True
    show ?thesis
    proof (cases cs')
      case Nil
      with True show ?thesis by simp
    next
      case (Cons x xs)
      with render_starts [of x xs ws2'] ok(2) True e show ?thesis by auto
    qed
  next
    case False
    show ?thesis
    proof (cases cs')
      case Nil
      from False obtain x xs where "cs = x # xs" by (cases cs) auto
      with render_starts [of x xs ws2] ok(1) Nil e show ?thesis by auto
    next
      case (Cons x xs)
      with False e have "render cs @ ws2 = render cs' @ ws2'" by simp
      then show ?thesis by (rule one_reading_aux [OF _ ok sp(2,4)])
    qed
  qed
qed


subsection \<open>What \<open>timeparse\<close> returns\<close>

lemma newline_space: "is_space (CHR 0x0A)"
  by (simp add: is_space_def)

lemma match_reading:
  assumes m: "(g, rest) \<in> set (rx_match timeparse_rx s)"
  shows "\<exists>ws1 cs ws2. s = ws1 @ render cs @ ws2 @ rest \<and> list_all is_space ws1
      \<and> list_all is_space (ws2 @ rest) \<and> g = captures cs \<and> in_order_from 0 cs"
proof -
  from m obtain w where "s = w @ rest" "rx_sem timeparse_rx w g rest"
    unfolding rx_match_iff by blast
  then obtain ws1 cs ws2 where "s = (ws1 @ render cs @ ws2) @ rest" "list_all is_space ws1"
    "list_all is_space ws2" "g = captures cs" "in_order_from 0 cs" "rest = [] \<or> rest = [CHR 0x0A]"
    unfolding timeparse_rx_sem by blast
  then have "s = ws1 @ render cs @ ws2 @ rest \<and> list_all is_space ws1
      \<and> list_all is_space (ws2 @ rest) \<and> g = captures cs \<and> in_order_from 0 cs"
    by (auto simp: newline_space)
  then show ?thesis by blast
qed

lemma match_of_components:
  assumes m: "(g, rest) \<in> set (rx_match timeparse_rx (ws1 @ render cs @ ws2))"
    and ok: "list_all component_ok cs" and sp: "list_all is_space ws1" "list_all is_space ws2"
  shows "g = captures cs \<and> in_order_from 0 cs"
proof -
  from match_reading [OF m] obtain ws1' cs' ws2' where
    r: "ws1 @ render cs @ ws2 = ws1' @ render cs' @ ws2' @ rest" "list_all is_space ws1'"
    "list_all is_space (ws2' @ rest)" "g = captures cs'" "in_order_from 0 cs'"
    by blast
  from r(5) have "list_all component_ok cs'" by (simp add: in_order_from_def)
  from one_reading [OF _ ok this sp r(2,3)] r(1) have "cs = cs'" by simp
  with r show ?thesis by simp
qed


lemma re_match_None: "re_match r s = None \<longleftrightarrow> rx_match r s = []"
  by (simp add: re_match_def split: list.splits)

lemma re_match_Some: "re_match r s = Some m \<Longrightarrow> m \<in> set (rx_match r s)"
  by (auto simp: re_match_def split: list.splits)

lemma strip_empty: "strip w = [] \<longleftrightarrow> list_all is_space w"
proof -
  have "strip w = [] \<longleftrightarrow> list_all is_space (dropWhile is_space w)"
    by (simp add: strip_def list_all_iff)
  also have "\<dots> \<longleftrightarrow> dropWhile is_space w = []"
  proof
    assume a: "list_all is_space (dropWhile is_space w)"
    show "dropWhile is_space w = []"
    proof (rule ccontr)
      assume n: "dropWhile is_space w \<noteq> []"
      then have "\<not> is_space (hd (dropWhile is_space w))" by (rule hd_dropWhile)
      moreover from n a have "is_space (hd (dropWhile is_space w))"
        by (cases "dropWhile is_space w") simp_all
      ultimately show False by simp
    qed
  next
    assume "dropWhile is_space w = []"
    then show "list_all is_space (dropWhile is_space w)" by (simp only: list.pred_inject(1))
  qed
  also have "\<dots> \<longleftrightarrow> list_all is_space w"
    by (simp add: list_all_iff)
  finally show ?thesis .
qed

lemma timeparse_spaces: "list_all is_space s \<Longrightarrow> timeparse s = Inr None"
proof -
  assume a: "list_all is_space s"
  have "strip (take n s) = []" for n
    unfolding strip_empty using a by (auto simp: list_all_iff dest: in_set_takeD)
  then show ?thesis
    by (simp add: timeparse_def split: option.splits)
qed

lemma timeparse_no_match: "re_match timeparse_rx s = None \<Longrightarrow> timeparse s = Inr None"
  by (simp add: timeparse_def)

lemma captures_Nil: "captures cs = [] \<longleftrightarrow> cs = []"
  by (simp add: captures_def)

lemma timeparse_no_group:
  assumes "re_match timeparse_rx s = Some ([], rest)"
  shows "timeparse s = Inr None"
proof -
  from match_reading [OF re_match_Some [OF assms]] obtain ws1 cs ws2 where
    r: "s = ws1 @ render cs @ ws2 @ rest" "list_all is_space ws1" "list_all is_space (ws2 @ rest)"
    "[] = captures cs"
    by blast
  from r(4) have "cs = []" by (simp add: captures_Nil [symmetric])
  with r have "list_all is_space s" by simp
  then show ?thesis by (rule timeparse_spaces)
qed

lemma timeparse_out_of_order:
  assumes "list_all is_space ws1" "list_all is_space ws2" "list_all component_ok comps"
    and "\<not> sorted_wrt (<) (map fst comps)"
  shows "timeparse (ws1 @ render comps @ ws2) = Inr None"
proof -
  have "rx_match timeparse_rx (ws1 @ render comps @ ws2) = []"
  proof (rule ccontr)
    assume "rx_match timeparse_rx (ws1 @ render comps @ ws2) \<noteq> []"
    then obtain g rest where "(g, rest) \<in> set (rx_match timeparse_rx (ws1 @ render comps @ ws2))"
      by (cases "rx_match timeparse_rx (ws1 @ render comps @ ws2)") auto
    from match_of_components [OF this assms(3,1,2)] have "in_order_from 0 comps" by simp
    with assms(4) show False by (simp add: in_order_from_def)
  qed
  then show ?thesis by (simp add: timeparse_no_match re_match_None)
qed




subsection \<open>The result is never an \<open>int\<close>\<close>

lemma py_mul_float: "py_mul (PFloat m) c = Inr x \<Longrightarrow> is_float x"
  by (cases c) (auto simp: is_float_def split: sum.splits)

lemma py_add_float: "is_float x \<Longrightarrow> py_add acc x = Inr y \<Longrightarrow> is_float y"
  by (cases acc; cases x) (auto simp: is_float_def split: sum.splits)

lemma seconds_term_float: "seconds_term k v = Inr x \<Longrightarrow> is_float x"
  by (auto simp: seconds_term_def split: option.splits sum.splits dest: py_mul_float)

lemma sum_terms_float:
  "sum_terms acc kvs = Inr x \<Longrightarrow> is_float acc \<or> (\<exists>k v. (k, Some v) \<in> set kvs) \<Longrightarrow> is_float x"
proof (induction acc kvs rule: sum_terms.induct)
  case (1 acc)
  then show ?case by simp
next
  case (2 acc k kvs)
  then show ?case by auto
next
  case (3 acc k v kvs)
  from "3.prems"(1) obtain t acc' where t: "seconds_term k v = Inr t" "py_add acc t = Inr acc'"
    "sum_terms acc' kvs = Inr x"
    by (auto split: sum.splits)
  from py_add_float [OF seconds_term_float [OF t(1)] t(2)] have "is_float acc'" .
  with "3.IH" [OF t(1) t(2) t(3)] show ?case by simp
qed

lemma groupdict_has_group:
  assumes "cs \<noteq> []" "in_order_from 0 cs"
  shows "\<exists>k v. (k, Some v) \<in> set (groupdict (captures cs))"
proof -
  from assms(1) obtain c cs' where cs: "cs = c # cs'" by (cases cs) auto
  obtain j num u where c: "c = (j, num, u)" by (cases c) auto
  with assms(2) cs have "unit_stage u = Some j" by (simp add: in_order_from_Cons)
  from unit_stage_chars [OF this] have j: "j < 6" by simp
  from cs c have "map_of (captures cs) (group_names ! j) = Some num" by simp
  moreover have "length group_names = 6" by (simp add: group_names_def)
  with j have "group_names ! j \<in> set group_names" by (simp only: nth_mem)
  ultimately have "(group_names ! j, Some num) \<in> set (groupdict (captures cs))"
    by (auto simp: groupdict_def image_iff)
  then show ?thesis by blast
qed

lemma timeparse_float: "timeparse s = Inr (Some x) \<Longrightarrow> is_float x"
proof -
  assume a: "timeparse s = Inr (Some x)"
  then obtain g rest where m: "re_match timeparse_rx s = Some (g, rest)"
    by (auto simp: timeparse_def split: option.splits)
  with a have st: "strip (take (length s - length rest) s) \<noteq> []"
    and su: "sum_terms (PInt 0) (groupdict g) = Inr x"
    by (auto simp: timeparse_def split: if_splits sum.splits)
  from match_reading [OF re_match_Some [OF m]] obtain ws1 cs ws2 where
    r: "s = ws1 @ render cs @ ws2 @ rest" "list_all is_space ws1" "list_all is_space (ws2 @ rest)"
    "g = captures cs" "in_order_from 0 cs"
    by blast
  have "cs \<noteq> []"
  proof
    assume "cs = []"
    with r have "list_all is_space s" by simp
    then have "list_all is_space (take (length s - length rest) s)"
      by (auto simp: list_all_iff dest: in_set_takeD)
    with st show False by (simp add: strip_empty)
  qed
  from groupdict_has_group [OF this r(5)] r(4) su show ?thesis
    by (auto intro: sum_terms_float)
qed

text \<open>
  Claim C5.  Every entry of \<open>MULTIPLIERS\<close> is a \<open>float\<close>, so every product
  \<open>MULTIPLIERS[k] * cast(v)\<close> is a \<open>float\<close> and so is the sum: \<open>timeparse('1m24s')\<close> is
  the float \<open>84.0\<close> (\<open>21 * 2^2\<close>), which compares equal to \<open>84\<close>, and no string is
  parsed to an \<open>int\<close>, also when every number in it is written with digits only.
\<close>

theorem timeparse_returns_a_float:
  "timeparse ''1m24s'' = Inr (Some (PFloat (Finite 21 2)))
   \<and> py_eq_int (PFloat (Finite 21 2)) 84
   \<and> timeparse s \<noteq> Inr (Some (PInt i))"
proof (intro conjI)
  show "timeparse ''1m24s'' = Inr (Some (PFloat (Finite 21 2)))" by code_simp
  show "py_eq_int (PFloat (Finite 21 2)) 84" by simp
  show "timeparse s \<noteq> Inr (Some (PInt i))"
    using timeparse_float [of s "PInt i"] by (auto simp: is_float_def)
qed

text \<open>
  Claim C6.  \<open>timeparse\<close> returns \<open>None\<close>, and raises nothing: for a string of
  whitespace only (the empty string too); when the pattern does not match or matches
  without any group; and for a string of well-formed components, with any whitespace
  around, whose units do not come in the strict order h, m, s, ms, us, ns.
\<close>

theorem timeparse_absent:
  "(list_all is_space s \<longrightarrow> timeparse s = Inr None)
   \<and> (re_match timeparse_rx s = None \<or> (\<exists>rest. re_match timeparse_rx s = Some ([], rest))
        \<longrightarrow> timeparse s = Inr None)
   \<and> (list_all is_space ws1 \<and> list_all is_space ws2 \<and> list_all component_ok comps
        \<and> \<not> sorted_wrt (<) (map fst comps)
        \<longrightarrow> timeparse (ws1 @ render comps @ ws2) = Inr None)
   \<and> timeparse ''5s3h'' = Inr None
   \<and> timeparse ''otherstring'' = Inr None
   \<and> timeparse [] = Inr None"
proof (intro conjI impI)
  show "timeparse s = Inr None" if "list_all is_space s"
    using that by (rule timeparse_spaces)
  show "timeparse s = Inr None"
    if "re_match timeparse_rx s = None \<or> (\<exists>rest. re_match timeparse_rx s = Some ([], rest))"
    using that timeparse_no_match timeparse_no_group by blast
  show "timeparse (ws1 @ render comps @ ws2) = Inr None"
    if "list_all is_space ws1 \<and> list_all is_space ws2 \<and> list_all component_ok comps
        \<and> \<not> sorted_wrt (<) (map fst comps)"
    using that timeparse_out_of_order by blast
  show "timeparse ''5s3h'' = Inr None" by code_simp
  show "timeparse ''otherstring'' = Inr None" by code_simp
  show "timeparse [] = Inr None" by code_simp
qed

theorem timeparse_absent_witness:
  "list_all is_space '' '' \<and> timeparse '' '' = Inr None
   \<and> re_match timeparse_rx ''soon'' = None \<and> timeparse ''soon'' = Inr None
   \<and> list_all component_ok [(2, ''5'', ''s''), (0, ''3'', ''h'')]
   \<and> \<not> sorted_wrt (<) (map fst [(2 :: nat, ''5'', ''s''), (0, ''3'', ''h'')])
   \<and> render [(2, ''5'', ''s''), (0, ''3'', ''h'')] = ''5s3h''
   \<and> timeparse ([] @ render [(2, ''5'', ''s''), (0, ''3'', ''h'')] @ []) = Inr None"
proof -
  have a: "list_all is_space '' ''" by code_simp
  have b: "re_match timeparse_rx ''soon'' = None" by code_simp
  have c: "list_all component_ok [(2, ''5'', ''s''), (0, ''3'', ''h'')]" by code_simp
  have d: "\<not> sorted_wrt (<) (map fst [(2 :: nat, ''5'', ''s''), (0, ''3'', ''h'')])" by simp
  have e: "render [(2, ''5'', ''s''), (0, ''3'', ''h'')] = ''5s3h''" by (simp add: render_def)
  have n: "list_all is_space []" by simp
  from timeparse_absent [of "'' ''" "[]" "[]" "[]"] a have 1: "timeparse '' '' = Inr None" by blast
  from timeparse_absent [of "''soon''" "[]" "[]" "[]"] b have 2: "timeparse ''soon'' = Inr None" by blast
  from timeparse_absent [of "[]" "[]" "[]" "[(2, ''5'', ''s''), (0, ''3'', ''h'')]"] c d n
  have 3: "timeparse ([] @ render [(2, ''5'', ''s''), (0, ''3'', ''h'')] @ []) = Inr None" by blast
  from a b c d e 1 2 3 show ?thesis by blast
qed


subsection \<open>Parsing what the formatter wrote\<close>














end
